theory Spec2Isabelle
  imports Main "HOL-Library.Sublist" "HOL-Library.Char_ord" "HOL-Library.List_Lexorder"
begin

section \<open>Rule table\<close>

text \<open>
  \<^verbatim>\<open>rules\<close> is a dict from rule numbers to either a string (matched exactly) or a list
  of lists of rule numbers (the options, each a list of rules matched consecutively).
  Python characters are modelled as \<^typ>\<open>char\<close>, a Python \<^verbatim>\<open>str\<close> as \<^typ>\<open>string\<close>.
\<close>

type_synonym rid = int

datatype rule = Terminal string | Alternatives "rid list list"

type_synonym grammar = "rid \<rightharpoonup> rule"

datatype error = KeyError rid | IndexError | TypeError | ValueError

section \<open>Parser creators (the combinator library)\<close>

text \<open>
  Each creator returns a function from the input string to the set of "matches": the rest
  of the string after a successful match. With pure arguments the closures are pure, and
  they are modelled as HOL functions.
\<close>

type_synonym matcher = "string \<Rightarrow> string set"

definition startswith :: "string \<Rightarrow> string \<Rightarrow> bool" where
  "startswith input string = (take (length string) input = string)"

definition literal :: "string \<Rightarrow> matcher" where
  "literal string input =
     (if startswith input string then {drop (length string) input} else {})"

definition concat_p :: "matcher \<Rightarrow> matcher \<Rightarrow> matcher" where
  "concat_p lhs rhs input = (\<Union>rest \<in> lhs input. rhs rest)"

definition alt :: "matcher \<Rightarrow> matcher \<Rightarrow> matcher" where
  "alt lhs rhs input = lhs input \<union> rhs input"

text \<open>The matchers that can be written with the three creators alone.\<close>

inductive built :: "matcher \<Rightarrow> bool" where
  built_literal: "built (literal t)"
| built_concat: "built a \<Longrightarrow> built b \<Longrightarrow> built (concat_p a b)"
| built_alt: "built a \<Longrightarrow> built b \<Longrightarrow> built (alt a b)"

section \<open>Part 1: direct translation of each rule\<close>

text \<open>
  \<^verbatim>\<open>get_parser_p1\<close> calls itself for every referenced rule and does not return on a
  grammar with a cycle; the model counts the nesting of calls down from \<open>fuel\<close> and
  \<open>None\<close> stands for a call that has not returned within it (the interpreter's limit on
  the recursion depth is not modelled: a call that nests without end is a call that does
  not return). \<open>Inl\<close> is a raised exception: \<^verbatim>\<open>rules[n]\<close> raises KeyError,
  \<^verbatim>\<open>rule[0]\<close> and \<^verbatim>\<open>parts[0]\<close> raise IndexError. A rule is a string or a list, so the
  last branch (\<^verbatim>\<open>bad rule\<close>) is not reached.
\<close>

type_synonym 'a res = "(error + 'a) option"

fun concat_parts_p1 :: "(rid \<Rightarrow> matcher res) \<Rightarrow> matcher \<Rightarrow> rid list \<Rightarrow> matcher res" where
  "concat_parts_p1 gp parser [] = Some (Inr parser)"
| "concat_parts_p1 gp parser (part # parts) =
     (case gp part of
        None \<Rightarrow> None
      | Some (Inl e) \<Rightarrow> Some (Inl e)
      | Some (Inr q) \<Rightarrow> concat_parts_p1 gp (concat_p parser q) parts)"

definition make_concat_p1 :: "(rid \<Rightarrow> matcher res) \<Rightarrow> rid list \<Rightarrow> matcher res" where
  "make_concat_p1 gp parts =
     (case parts of
        [] \<Rightarrow> Some (Inl IndexError)
      | p0 # rest \<Rightarrow>
          (case gp p0 of
             None \<Rightarrow> None
           | Some (Inl e) \<Rightarrow> Some (Inl e)
           | Some (Inr parser) \<Rightarrow> concat_parts_p1 gp parser rest))"

fun alt_rules_p1 :: "(rid \<Rightarrow> matcher res) \<Rightarrow> matcher \<Rightarrow> rid list list \<Rightarrow> matcher res" where
  "alt_rules_p1 gp parser [] = Some (Inr parser)"
| "alt_rules_p1 gp parser (alt_rule # rest) =
     (case make_concat_p1 gp alt_rule of
        None \<Rightarrow> None
      | Some (Inl e) \<Rightarrow> Some (Inl e)
      | Some (Inr q) \<Rightarrow> alt_rules_p1 gp (alt parser q) rest)"

definition translate_p1 :: "(rid \<Rightarrow> matcher res) \<Rightarrow> grammar \<Rightarrow> rid \<Rightarrow> matcher res" where
  "translate_p1 gp rules n =
     (case rules n of
        None \<Rightarrow> Some (Inl (KeyError n))
      | Some (Terminal t) \<Rightarrow> Some (Inr (literal t))
      | Some (Alternatives rule) \<Rightarrow>
          (case rule of
             [] \<Rightarrow> Some (Inl IndexError)
           | r0 # rest \<Rightarrow>
               (case make_concat_p1 gp r0 of
                  None \<Rightarrow> None
                | Some (Inl e) \<Rightarrow> Some (Inl e)
                | Some (Inr parser) \<Rightarrow> alt_rules_p1 gp parser rest)))"

primrec get_parser_p1 :: "nat \<Rightarrow> grammar \<Rightarrow> rid \<Rightarrow> matcher res" where
  "get_parser_p1 0 rules n = None"
| "get_parser_p1 (Suc fuel) rules n = translate_p1 (get_parser_p1 fuel rules) rules n"

section \<open>Part 2: memoized translation with a recursion guard\<close>

text \<open>
  In part 2 the closures are no longer pure: \<^verbatim>\<open>parser_wrapper\<close> reads and writes the
  memo table and the depth table of its rule, and the placeholder
  \<^verbatim>\<open>lambda string: parser_table[n](string)\<close> reads the parser table when it is called.
  A closure is therefore a value of the datatype \<open>parser\<close>, the tables are the \<open>state\<close>,
  and \<open>run\<close> calls a closure on an input string in a state. Each rule number is
  translated at most once (it stays in the parser table from then on), so the two tables
  that \<^verbatim>\<open>get_parser\<close> creates for rule \<open>n\<close> are stored under \<open>n\<close>.
\<close>

datatype parser =
    Literal string
  | Concat parser parser
  | Alt parser parser
  | Deferred rid
  | Wrapper rid parser

text \<open>
  What a part 2 closure returns: a set of strings, or the empty dict that
  \<^verbatim>\<open>return {}\<close> of \<^verbatim>\<open>parser_wrapper\<close> creates.
\<close>

datatype matches = Matches "string set" | EmptyDict

record state =
  parser_table :: "rid \<rightharpoonup> parser"
  parser_memotable :: "rid \<Rightarrow> string \<rightharpoonup> matches"
  parser_depthtable :: "rid \<Rightarrow> string \<Rightarrow> nat"

definition init :: state where
  "init = \<lparr>parser_table = Map.empty, parser_memotable = (\<lambda>n. Map.empty),
           parser_depthtable = (\<lambda>n string. 0)\<rparr>"

type_synonym 'a sres = "(error + 'a \<times> state) option"

type_synonym smatcher = "string \<Rightarrow> state \<Rightarrow> matches sres"

text \<open>
  Iterating over a dict yields its keys and \<^verbatim>\<open>set.update\<close> accepts any iterable, so
  the empty dict counts as no element. \<^verbatim>\<open>|\<close> joins two sets, merges two dicts
  (Python 3.9 and later) and raises TypeError on a set and a dict.
\<close>

fun elems :: "matches \<Rightarrow> string set" where
  "elems (Matches S) = S"
| "elems EmptyDict = {}"

fun py_or :: "matches \<Rightarrow> matches \<Rightarrow> error + matches" where
  "py_or (Matches A) (Matches B) = Inr (Matches (A \<union> B))"
| "py_or EmptyDict EmptyDict = Inr EmptyDict"
| "py_or (Matches A) EmptyDict = Inl TypeError"
| "py_or EmptyDict (Matches B) = Inl TypeError"

definition literal_s :: "string \<Rightarrow> smatcher" where
  "literal_s string input \<sigma> = Some (Inr (Matches (literal string input), \<sigma>))"

text \<open>
  The loop \<^verbatim>\<open>for rest in lhs_matches: all_matches.update(rhs(rest))\<close>. Python does not
  specify the order in which a set is iterated; \<open>order\<close> lists the elements of a set in
  the order of the iteration and is a parameter of the model.
\<close>

fun concat_loop :: "smatcher \<Rightarrow> string list \<Rightarrow> string set \<Rightarrow> state \<Rightarrow> (string set) sres" where
  "concat_loop rhs [] all_matches \<sigma> = Some (Inr (all_matches, \<sigma>))"
| "concat_loop rhs (rest # rests) all_matches \<sigma> =
     (case rhs rest \<sigma> of
        None \<Rightarrow> None
      | Some (Inl e) \<Rightarrow> Some (Inl e)
      | Some (Inr (m, \<sigma>')) \<Rightarrow> concat_loop rhs rests (all_matches \<union> elems m) \<sigma>')"

definition concat_s :: "(string set \<Rightarrow> string list) \<Rightarrow> smatcher \<Rightarrow> smatcher \<Rightarrow> smatcher" where
  "concat_s order lhs rhs input \<sigma> =
     (case lhs input \<sigma> of
        None \<Rightarrow> None
      | Some (Inl e) \<Rightarrow> Some (Inl e)
      | Some (Inr (lhs_matches, \<sigma>1)) \<Rightarrow>
          (case concat_loop rhs (order (elems lhs_matches)) {} \<sigma>1 of
             None \<Rightarrow> None
           | Some (Inl e) \<Rightarrow> Some (Inl e)
           | Some (Inr (all_matches, \<sigma>2)) \<Rightarrow> Some (Inr (Matches all_matches, \<sigma>2))))"

definition alt_s :: "smatcher \<Rightarrow> smatcher \<Rightarrow> smatcher" where
  "alt_s lhs rhs input \<sigma> =
     (case lhs input \<sigma> of
        None \<Rightarrow> None
      | Some (Inl e) \<Rightarrow> Some (Inl e)
      | Some (Inr (l, \<sigma>1)) \<Rightarrow>
          (case rhs input \<sigma>1 of
             None \<Rightarrow> None
           | Some (Inl e) \<Rightarrow> Some (Inl e)
           | Some (Inr (r, \<sigma>2)) \<Rightarrow>
               (case py_or l r of
                  Inl e \<Rightarrow> Some (Inl e)
                | Inr m \<Rightarrow> Some (Inr (m, \<sigma>2)))))"

definition deferred :: "(parser \<Rightarrow> smatcher) \<Rightarrow> rid \<Rightarrow> smatcher" where
  "deferred call n string \<sigma> =
     (case parser_table \<sigma> n of
        None \<Rightarrow> Some (Inl (KeyError n))
      | Some q \<Rightarrow> call q string \<sigma>)"

definition bump_depth :: "rid \<Rightarrow> string \<Rightarrow> state \<Rightarrow> state" where
  "bump_depth n string \<sigma> =
     \<sigma>\<lparr>parser_depthtable :=
         (parser_depthtable \<sigma>)(n := (parser_depthtable \<sigma> n)(string := parser_depthtable \<sigma> n string + 1))\<rparr>"

definition store_memo :: "rid \<Rightarrow> string \<Rightarrow> matches \<Rightarrow> state \<Rightarrow> state" where
  "store_memo n string m \<sigma> =
     \<sigma>\<lparr>parser_memotable := (parser_memotable \<sigma>)(n := (parser_memotable \<sigma> n)(string \<mapsto> m))\<rparr>"

definition parser_wrapper :: "rid \<Rightarrow> smatcher \<Rightarrow> smatcher" where
  "parser_wrapper n parser string \<sigma> =
     (case parser_memotable \<sigma> n string of
        Some m \<Rightarrow> Some (Inr (m, \<sigma>))
      | None \<Rightarrow>
          if parser_depthtable \<sigma> n string > length string + 1 then Some (Inr (EmptyDict, \<sigma>))
          else
            (case parser string (bump_depth n string \<sigma>) of
               None \<Rightarrow> None
             | Some (Inl e) \<Rightarrow> Some (Inl e)
             | Some (Inr (m, \<sigma>')) \<Rightarrow> Some (Inr (m, store_memo n string m \<sigma>'))))"

text \<open>
  Calling a closure. A recursive grammar can make a call nest without end; \<open>fuel\<close> bounds
  the nesting of calls and \<open>None\<close> is a call that has not returned within it.
\<close>

primrec run :: "(string set \<Rightarrow> string list) \<Rightarrow> nat \<Rightarrow> parser \<Rightarrow> smatcher" where
  "run order 0 p = (\<lambda>input \<sigma>. None)"
| "run order (Suc fuel) p =
     (case p of
        Literal string \<Rightarrow> literal_s string
      | Concat lhs rhs \<Rightarrow> concat_s order (run order fuel lhs) (run order fuel rhs)
      | Alt lhs rhs \<Rightarrow> alt_s (run order fuel lhs) (run order fuel rhs)
      | Deferred n \<Rightarrow> deferred (run order fuel) n
      | Wrapper n parser \<Rightarrow> parser_wrapper n (run order fuel parser))"

text \<open>
  \<^verbatim>\<open>get_parser_part2\<close> before decoration is \<open>translate_p2\<close>; the calls inside go to
  the decorated function \<open>gp\<close>. \<^verbatim>\<open>parser_memoize\<close> gives \<open>get_parser\<close>.
\<close>

fun concat_parts_p2 :: "(rid \<Rightarrow> state \<Rightarrow> parser sres) \<Rightarrow> parser \<Rightarrow> rid list \<Rightarrow> state \<Rightarrow> parser sres" where
  "concat_parts_p2 gp parser [] \<sigma> = Some (Inr (parser, \<sigma>))"
| "concat_parts_p2 gp parser (part # parts) \<sigma> =
     (case gp part \<sigma> of
        None \<Rightarrow> None
      | Some (Inl e) \<Rightarrow> Some (Inl e)
      | Some (Inr (q, \<sigma>')) \<Rightarrow> concat_parts_p2 gp (Concat parser q) parts \<sigma>')"

definition make_concat_p2 :: "(rid \<Rightarrow> state \<Rightarrow> parser sres) \<Rightarrow> rid list \<Rightarrow> state \<Rightarrow> parser sres" where
  "make_concat_p2 gp parts \<sigma> =
     (case parts of
        [] \<Rightarrow> Some (Inl IndexError)
      | p0 # rest \<Rightarrow>
          (case gp p0 \<sigma> of
             None \<Rightarrow> None
           | Some (Inl e) \<Rightarrow> Some (Inl e)
           | Some (Inr (parser, \<sigma>')) \<Rightarrow> concat_parts_p2 gp parser rest \<sigma>'))"

fun alt_rules_p2 :: "(rid \<Rightarrow> state \<Rightarrow> parser sres) \<Rightarrow> parser \<Rightarrow> rid list list \<Rightarrow> state \<Rightarrow> parser sres" where
  "alt_rules_p2 gp parser [] \<sigma> = Some (Inr (parser, \<sigma>))"
| "alt_rules_p2 gp parser (alt_rule # rest) \<sigma> =
     (case make_concat_p2 gp alt_rule \<sigma> of
        None \<Rightarrow> None
      | Some (Inl e) \<Rightarrow> Some (Inl e)
      | Some (Inr (q, \<sigma>')) \<Rightarrow> alt_rules_p2 gp (Alt parser q) rest \<sigma>')"

definition translate_p2 :: "(rid \<Rightarrow> state \<Rightarrow> parser sres) \<Rightarrow> grammar \<Rightarrow> rid \<Rightarrow> state \<Rightarrow> parser sres" where
  "translate_p2 gp rules n \<sigma> =
     (case rules n of
        None \<Rightarrow> Some (Inl (KeyError n))
      | Some (Terminal t) \<Rightarrow> Some (Inr (Literal t, \<sigma>))
      | Some (Alternatives rule) \<Rightarrow>
          (case rule of
             [] \<Rightarrow> Some (Inl IndexError)
           | r0 # rest \<Rightarrow>
               (case make_concat_p2 gp r0 \<sigma> of
                  None \<Rightarrow> None
                | Some (Inl e) \<Rightarrow> Some (Inl e)
                | Some (Inr (parser, \<sigma>')) \<Rightarrow> alt_rules_p2 gp parser rest \<sigma>')))"

definition install :: "rid \<Rightarrow> parser \<Rightarrow> state \<Rightarrow> state" where
  "install n p \<sigma> = \<sigma>\<lparr>parser_table := (parser_table \<sigma>)(n \<mapsto> p)\<rparr>"

definition fresh_tables :: "rid \<Rightarrow> state \<Rightarrow> state" where
  "fresh_tables n \<sigma> =
     \<sigma>\<lparr>parser_memotable := (parser_memotable \<sigma>)(n := Map.empty),
       parser_depthtable := (parser_depthtable \<sigma>)(n := (\<lambda>string. 0))\<rparr>"

definition get_parser :: "(rid \<Rightarrow> state \<Rightarrow> parser sres) \<Rightarrow> rid \<Rightarrow> state \<Rightarrow> parser sres" where
  "get_parser f n \<sigma> =
     (case parser_table \<sigma> n of
        Some p \<Rightarrow> Some (Inr (p, \<sigma>))
      | None \<Rightarrow>
          (case f n (install n (Deferred n) \<sigma>) of
             None \<Rightarrow> None
           | Some (Inl e) \<Rightarrow> Some (Inl e)
           | Some (Inr (parser, \<sigma>')) \<Rightarrow>
               Some (Inr (Wrapper n parser, fresh_tables n (install n parser \<sigma>')))))"

primrec get_parser_part2 :: "nat \<Rightarrow> grammar \<Rightarrow> rid \<Rightarrow> state \<Rightarrow> parser sres" where
  "get_parser_part2 0 rules n = (\<lambda>\<sigma>. None)"
| "get_parser_part2 (Suc fuel) rules n =
     get_parser (translate_p2 (get_parser_part2 fuel rules) rules) n"

section \<open>The script\<close>

text \<open>
  \<^verbatim>\<open>input_lines\<close> are the lines of the input file and \<open>rules\<close> is the dict that the
  rule lines before the first empty line were converted to. \<^verbatim>\<open>strings\<close> are the lines
  after the first empty line; \<^verbatim>\<open>input_lines.index('')\<close> raises ValueError when there
  is none.
\<close>

fun index_of :: "string list \<Rightarrow> string \<Rightarrow> nat option" where
  "index_of [] x = None"
| "index_of (y # ys) x = (if y = x then Some 0 else map_option Suc (index_of ys x))"

definition strings :: "string list \<Rightarrow> error + string list" where
  "strings input_lines =
     (case index_of input_lines '''' of
        None \<Rightarrow> Inl ValueError
      | Some split \<Rightarrow> Inr (drop (split + 1) input_lines))"

text \<open>Part 1: \<^verbatim>\<open>parser = get_parser_p1(0)\<close> and the counting loop.\<close>

fun count_p1 :: "matcher \<Rightarrow> string list \<Rightarrow> nat \<Rightarrow> nat" where
  "count_p1 parser [] match_count = match_count"
| "count_p1 parser (s # rest) match_count =
     count_p1 parser rest (if '''' \<in> parser s then match_count + 1 else match_count)"

definition part1 :: "nat \<Rightarrow> grammar \<Rightarrow> string list \<Rightarrow> nat res" where
  "part1 fuel rules input_lines =
     (case get_parser_p1 fuel rules 0 of
        None \<Rightarrow> None
      | Some (Inl e) \<Rightarrow> Some (Inl e)
      | Some (Inr parser) \<Rightarrow> Some (Inr (count_p1 parser input_lines 0)))"

text \<open>
  Part 2 replaces rules 8 and 11, translates rule 0 with the memoized function, starting
  from an empty parser table, and counts in the same way.
\<close>

definition part2_rules :: "grammar \<Rightarrow> grammar" where
  "part2_rules rules =
     rules(8 \<mapsto> Alternatives [[42], [42, 8]], 11 \<mapsto> Alternatives [[42, 31], [42, 11, 31]])"

fun count_p2 :: "smatcher \<Rightarrow> string list \<Rightarrow> nat \<Rightarrow> state \<Rightarrow> nat sres" where
  "count_p2 parser [] match_count \<sigma> = Some (Inr (match_count, \<sigma>))"
| "count_p2 parser (s # rest) match_count \<sigma> =
     (case parser s \<sigma> of
        None \<Rightarrow> None
      | Some (Inl e) \<Rightarrow> Some (Inl e)
      | Some (Inr (matches, \<sigma>')) \<Rightarrow>
          count_p2 parser rest
            (if '''' \<in> elems matches then match_count + 1 else match_count) \<sigma>')"

definition part2 :: "(string set \<Rightarrow> string list) \<Rightarrow> nat \<Rightarrow> grammar \<Rightarrow> string list \<Rightarrow> nat sres" where
  "part2 order fuel rules input_lines =
     (case get_parser_part2 fuel (part2_rules rules) 0 init of
        None \<Rightarrow> None
      | Some (Inl e) \<Rightarrow> Some (Inl e)
      | Some (Inr (parser, \<sigma>)) \<Rightarrow> count_p2 (run order fuel parser) input_lines 0 \<sigma>)"

section \<open>Notions used in the statements\<close>

text \<open>
  An iteration order lists every element of a finite set once. The lexicographic order
  is one of them.
\<close>

definition enumerates :: "(string set \<Rightarrow> string list) \<Rightarrow> bool" where
  "enumerates order = (\<forall>S. finite S \<longrightarrow> set (order S) = S \<and> distinct (order S))"

definition lex_order :: "string set \<Rightarrow> string list" where
  "lex_order = sorted_list_of_set"

text \<open>
  A closure that does not touch the tables, such as every part 1 matcher, seen as a part 2
  closure.
\<close>

definition pure_s :: "matcher \<Rightarrow> smatcher" where
  "pure_s m input \<sigma> = Some (Inr (Matches (m input), \<sigma>))"

text \<open>More fuel never changes a result: \<open>below f f'\<close> says that \<open>f'\<close> returns what \<open>f\<close> returns.\<close>

definition below :: "('a \<Rightarrow> state \<Rightarrow> 'b sres) \<Rightarrow> ('a \<Rightarrow> state \<Rightarrow> 'b sres) \<Rightarrow> bool" where
  "below f f' = (\<forall>x \<sigma> r. f x \<sigma> = Some r \<longrightarrow> f' x \<sigma> = Some r)"

definition below1 :: "('a \<Rightarrow> 'b res) \<Rightarrow> ('a \<Rightarrow> 'b res) \<Rightarrow> bool" where
  "below1 f f' = (\<forall>x r. f x = Some r \<longrightarrow> f' x = Some r)"

section \<open>Example inputs\<close>

text \<open>
  The rule table of the recursion example: rule 8 as part 2 defines it and rule 42 the
  terminal \<open>a\<close>.
\<close>

definition rules_8_42 :: grammar where
  "rules_8_42 = [8 \<mapsto> Alternatives [[42], [42, 8]], 42 \<mapsto> Terminal ''a'']"

text \<open>
  An input file whose first rule line is matched by rule 0 itself: the lines
  \<^verbatim>\<open>0: 2 3\<close>, \<^verbatim>\<open>2: "0:"\<close>, \<^verbatim>\<open>3: " 2 3"\<close>, an empty line and the one string \<^verbatim>\<open>x\<close>,
  with the dict that the rule lines are converted to.
\<close>

definition self_matching_rules :: grammar where
  "self_matching_rules =
     [0 \<mapsto> Alternatives [[2, 3]], 2 \<mapsto> Terminal ''0:'', 3 \<mapsto> Terminal '' 2 3'']"

definition self_matching_lines :: "string list" where
  "self_matching_lines = [''0: 2 3'', ''2: \"0:\"'', ''3: \" 2 3\"'', '''', ''x'']"

text \<open>
  An input file in which rule 42 is left recursive. Part 1 does not reach rule 42
  (rule 8 of the file is \<^verbatim>\<open>8: 1\<close>); part 2 reaches it through its own rule 8.
\<close>

definition left_recursive_rules :: grammar where
  "left_recursive_rules =
     [0 \<mapsto> Alternatives [[8]], 8 \<mapsto> Alternatives [[1]], 1 \<mapsto> Terminal ''a'',
      42 \<mapsto> Alternatives [[42, 1], [1]]]"

definition left_recursive_lines :: "string list" where
  "left_recursive_lines = [''0: 8'', ''8: 1'', ''1: \"a\"'', ''42: 42 1 | 1'', '''', ''a'']"

text \<open>
  An input file in which rules 42 and 1 refer to each other through single references, so
  that the recursion goes through \<^verbatim>\<open>parser_wrapper\<close> of rule 1.
\<close>

definition guard_rules :: grammar where
  "guard_rules =
     [0 \<mapsto> Alternatives [[8]], 8 \<mapsto> Alternatives [[2]], 2 \<mapsto> Terminal ''a'',
      42 \<mapsto> Alternatives [[1]], 1 \<mapsto> Alternatives [[42], [2]]]"

definition guard_lines :: "string list" where
  "guard_lines = [''0: 8'', ''8: 2'', ''2: \"a\"'', ''42: 1'', ''1: 42 | 2'', '''', ''a'']"

section \<open>Grammars without recursion\<close>

text \<open>
  Rule \<open>n\<close> references rule \<open>m\<close> when \<open>m\<close> occurs in an option of \<open>n\<close>. A rule
  table is closed when every referenced rule is present. The conversion of the rule lines
  builds every option from a \<^verbatim>\<open>split\<close>, so no list of options and no option is empty.
\<close>

definition refs :: "grammar \<Rightarrow> (rid \<times> rid) set" where
  "refs rules = {(n, m). \<exists>rule. rules n = Some (Alternatives rule) \<and> m \<in> set (concat rule)}"

definition closed_rules :: "grammar \<Rightarrow> bool" where
  "closed_rules rules = (\<forall>(n, m) \<in> refs rules. m \<in> dom rules)"

definition nonempty_rules :: "grammar \<Rightarrow> bool" where
  "nonempty_rules rules =
     (\<forall>n rule. rules n = Some (Alternatives rule) \<longrightarrow> rule \<noteq> [] \<and> [] \<notin> set rule)"

text \<open>
  What a part 2 closure computes when no call is cut by the guard: the guard is
  transparent and the creators are the pure ones. \<open>wids\<close> are the rules whose
  \<^verbatim>\<open>parser_wrapper\<close> occurs in a closure.
\<close>

fun den :: "parser \<Rightarrow> matcher" where
  "den (Literal t) = literal t"
| "den (Concat l r) = concat_p (den l) (den r)"
| "den (Alt l r) = alt (den l) (den r)"
| "den (Deferred n) = (\<lambda>input. {})"
| "den (Wrapper n q) = den q"

fun wids :: "parser \<Rightarrow> rid set" where
  "wids (Literal t) = {}"
| "wids (Concat l r) = wids l \<union> wids r"
| "wids (Alt l r) = wids l \<union> wids r"
| "wids (Deferred n) = {}"
| "wids (Wrapper n q) = insert n (wids q)"

text \<open>
  Invariants of the translation of a grammar without recursion. A closure is \<open>ok\<close> when
  it contains no placeholder and each \<^verbatim>\<open>parser_wrapper\<close> in it wraps the table entry of
  its rule and does not occur inside itself. \<open>memo_ok A\<close>: every memo entry is the value
  that the table entry computes, and outside the calls in progress \<open>A\<close> a depth counter
  is zero where there is no memo entry. A table entry is \<open>good\<close> when it is \<open>ok\<close>, wraps
  only rules reachable from its own and computes what part 1 returns for the rule.
\<close>

fun ok :: "(rid \<rightharpoonup> parser) \<Rightarrow> parser \<Rightarrow> bool" where
  "ok T (Literal t) = True"
| "ok T (Concat l r) = (ok T l \<and> ok T r)"
| "ok T (Alt l r) = (ok T l \<and> ok T r)"
| "ok T (Deferred n) = False"
| "ok T (Wrapper n q) = (T n = Some q \<and> n \<notin> wids q \<and> ok T q)"

definition memo_ok :: "(rid \<times> string) set \<Rightarrow> state \<Rightarrow> bool" where
  "memo_ok A \<sigma> =
     ((\<forall>n s v. parser_memotable \<sigma> n s = Some v \<longrightarrow>
         (\<exists>q. parser_table \<sigma> n = Some q \<and> v = Matches (den q s))) \<and>
      (\<forall>n s. (n, s) \<notin> A \<longrightarrow> parser_memotable \<sigma> n s = None \<longrightarrow> parser_depthtable \<sigma> n s = 0))"

definition good :: "grammar \<Rightarrow> (rid \<rightharpoonup> parser) \<Rightarrow> rid \<Rightarrow> bool" where
  "good rules T n =
     (\<exists>q. T n = Some q \<and> ok T q \<and> wids q \<subseteq> (refs rules)\<^sup>+ `` {n} \<and>
          (\<exists>k. get_parser_p1 k rules n = Some (Inr (den q))))"

definition ext :: "(rid \<rightharpoonup> parser) \<Rightarrow> (rid \<rightharpoonup> parser) \<Rightarrow> bool" where
  "ext T T' = (\<forall>m q. T m = Some q \<longrightarrow> ok T q \<longrightarrow> T' m = Some q)"

definition clean :: "state \<Rightarrow> bool" where
  "clean \<sigma> = (parser_memotable \<sigma> = (\<lambda>n. Map.empty) \<and> parser_depthtable \<sigma> = (\<lambda>n s. 0))"

definition settled :: "grammar \<Rightarrow> rid set \<Rightarrow> (rid \<rightharpoonup> parser) \<Rightarrow> bool" where
  "settled rules D T = (\<forall>m\<in>D. T m = None \<or> good rules T m)"

definition step :: "grammar \<Rightarrow> rid set \<Rightarrow> state \<Rightarrow> state \<Rightarrow> bool" where
  "step rules D \<sigma> \<sigma>' =
     (ext (parser_table \<sigma>) (parser_table \<sigma>') \<and>
      (\<forall>x. parser_table \<sigma>' x \<noteq> parser_table \<sigma> x \<longrightarrow> x \<in> D \<and> good rules (parser_table \<sigma>') x) \<and>
      (clean \<sigma> \<longrightarrow> clean \<sigma>'))"

definition res_ok :: "rid set \<Rightarrow> (rid \<rightharpoonup> parser) \<Rightarrow> parser \<Rightarrow> matcher \<Rightarrow> bool" where
  "res_ok D T p m = (den p = m \<and> ok T p \<and> wids p \<subseteq> D)"

definition rel :: "grammar \<Rightarrow> rid set \<Rightarrow> state \<Rightarrow> error + matcher \<Rightarrow> error + parser \<times> state \<Rightarrow> bool" where
  "rel rules D \<sigma> r1 r2 =
     (case r1 of
        Inl e \<Rightarrow> r2 = Inl e
      | Inr m \<Rightarrow> (\<exists>p \<sigma>'. r2 = Inr (p, \<sigma>') \<and> res_ok D (parser_table \<sigma>') p m \<and> step rules D \<sigma> \<sigma>'))"

definition agrees ::
  "grammar \<Rightarrow> rid set \<Rightarrow> (rid \<Rightarrow> matcher res) \<Rightarrow> (rid \<Rightarrow> state \<Rightarrow> parser sres) \<Rightarrow> rid \<Rightarrow> bool" where
  "agrees rules D gp1 gp2 c =
     (\<forall>\<sigma> r1. settled rules D (parser_table \<sigma>) \<longrightarrow> gp1 c = Some r1 \<longrightarrow>
        (\<exists>r2. gp2 c \<sigma> = Some r2 \<and> rel rules D \<sigma> r1 r2))"

section \<open>Properties of the combinator library\<close>

lemma startswith_prefix: "startswith s t = prefix t s"
proof
  assume "startswith s t"
  then have "s = t @ drop (length t) s"
    unfolding startswith_def by (metis append_take_drop_id)
  then show "prefix t s" by (metis prefixI)
next
  assume "prefix t s"
  then obtain r where "s = t @ r" by (auto elim: prefixE)
  then show "startswith s t" by (simp add: startswith_def)
qed

lemma literal_mem: "r \<in> literal t s \<longleftrightarrow> s = t @ r"
proof
  assume "r \<in> literal t s"
  then have "take (length t) s = t" and "r = drop (length t) s"
    by (auto simp: literal_def startswith_def split: if_splits)
  then show "s = t @ r" by (metis append_take_drop_id)
next
  assume "s = t @ r"
  then show "r \<in> literal t s" by (simp add: literal_def startswith_def)
qed

lemma built_suffix: "built m \<Longrightarrow> r \<in> m s \<Longrightarrow> suffix r s"
proof (induction arbitrary: r s rule: built.induct)
  case (built_literal t)
  then show ?case by (auto simp: literal_mem suffix_def)
next
  case (built_concat a b)
  then obtain x where "x \<in> a s" "r \<in> b x" by (auto simp: concat_p_def)
  with built_concat.IH show ?case by (blast intro: suffix_order.trans)
next
  case (built_alt a b)
  then show ?case by (auto simp: alt_def)
qed

lemma concat_parts_p1_built:
  "concat_parts_p1 gp parser parts = Some (Inr m) \<Longrightarrow> built parser \<Longrightarrow>
   (\<And>p q. gp p = Some (Inr q) \<Longrightarrow> built q) \<Longrightarrow> built m"
  by (induction parts arbitrary: parser)
     (auto split: option.splits sum.splits intro: built.intros)

lemma make_concat_p1_built:
  "make_concat_p1 gp parts = Some (Inr m) \<Longrightarrow>
   (\<And>p q. gp p = Some (Inr q) \<Longrightarrow> built q) \<Longrightarrow> built m"
  unfolding make_concat_p1_def
  by (auto split: list.splits option.splits sum.splits dest: concat_parts_p1_built)

lemma alt_rules_p1_built:
  "alt_rules_p1 gp parser rest = Some (Inr m) \<Longrightarrow> built parser \<Longrightarrow>
   (\<And>p q. gp p = Some (Inr q) \<Longrightarrow> built q) \<Longrightarrow> built m"
proof (induction rest arbitrary: parser)
  case Nil
  then show ?case by simp
next
  case (Cons alt_rule rest)
  from Cons.prems(1) obtain q where q: "make_concat_p1 gp alt_rule = Some (Inr q)"
    and m: "alt_rules_p1 gp (alt parser q) rest = Some (Inr m)"
    by (auto split: option.splits sum.splits)
  have "built q" using q Cons.prems(3) by (rule make_concat_p1_built)
  then have "built (alt parser q)" using Cons.prems(2) by (blast intro: built.intros)
  then show ?case using Cons.IH m Cons.prems(3) by blast
qed

lemma get_parser_p1_built: "get_parser_p1 fuel rules n = Some (Inr m) \<Longrightarrow> built m"
proof (induction fuel arbitrary: n m)
  case 0
  then show ?case by simp
next
  case (Suc fuel)
  have gp: "\<And>p q. get_parser_p1 fuel rules p = Some (Inr q) \<Longrightarrow> built q"
    using Suc.IH by blast
  show ?case
  proof (cases "rules n")
    case None
    with Suc.prems show ?thesis by (simp add: translate_p1_def)
  next
    case (Some r)
    show ?thesis
    proof (cases r)
      case (Terminal t)
      with Some Suc.prems show ?thesis by (auto simp: translate_p1_def intro: built.intros)
    next
      case (Alternatives rule)
      with Some Suc.prems obtain r0 rest parser where "rule = r0 # rest"
        and p: "make_concat_p1 (get_parser_p1 fuel rules) r0 = Some (Inr parser)"
        and m: "alt_rules_p1 (get_parser_p1 fuel rules) parser rest = Some (Inr m)"
        by (auto simp: translate_p1_def split: list.splits option.splits sum.splits)
      have "built parser" using p gp by (rule make_concat_p1_built)
      with m gp show ?thesis by (blast intro: alt_rules_p1_built)
    qed
  qed
qed

text \<open>
  C6. For all strings \<open>s\<close> and literal texts \<open>t\<close>, \<open>literal t\<close> applied to \<open>s\<close> is the
  singleton of \<open>s\<close> without its first \<open>length t\<close> characters when \<open>s\<close> starts with \<open>t\<close>,
  and the empty set otherwise. The function is total: no input raises.
\<close>

theorem literal_spec:
  "literal t s = (if prefix t s then {drop (length t) s} else {})"
  by (simp add: literal_def startswith_prefix)

theorem literal_spec_witness:
  "literal ''ab'' ''abcd'' = {''cd''} \<and> literal ''ab'' ''xy'' = {}"
  using literal_spec [of "''ab''" "''abcd''"] literal_spec [of "''ab''" "''xy''"]
  by simp

text \<open>
  C7. Sequential composition is associative on result sets: for matchers \<open>a\<close>, \<open>b\<close>, \<open>c\<close>
  (functions from the input string to the set of remainders) and any input,
  \<open>concat (concat a b) c\<close> and \<open>concat a (concat b c)\<close> return the same set.
\<close>

theorem concat_assoc:
  "concat_p (concat_p a b) c input = concat_p a (concat_p b c) input"
  by (auto simp: concat_p_def)

text \<open>
  C8. Alternative composition is set union, hence commutative: \<open>alt a b\<close> on an input is
  the union of the two result sets and equals \<open>alt b a\<close> on it.
\<close>

theorem alt_union_commute:
  "alt a b input = a input \<union> b input \<and> alt a b input = alt b a input"
  by (auto simp: alt_def)

text \<open>
  C10. Every remainder returned by a matcher composed of \<open>literal\<close>, \<open>concat\<close> and
  \<open>alt\<close>, in particular by a matcher that the part 1 translation returns, is a suffix of
  the input, so it is no longer than the input.
\<close>

theorem remainder_is_suffix:
  assumes "built m \<or> (\<exists>fuel rules n. get_parser_p1 fuel rules n = Some (Inr m))"
    and "r \<in> m s"
  shows "suffix r s \<and> length r \<le> length s"
proof -
  from assms(1) have "built m" by (auto dest: get_parser_p1_built)
  then have "suffix r s" using assms(2) by (rule built_suffix)
  then show ?thesis by (simp add: suffix_length_le)
qed

theorem remainder_is_suffix_witness:
  "''bab'' \<in> alt (literal ''a'') (concat_p (literal ''a'') (literal ''b'')) ''abab''
   \<and> suffix ''bab'' ''abab'' \<and> length ''bab'' \<le> length ''abab''"
proof -
  have b: "built (alt (literal ''a'') (concat_p (literal ''a'') (literal ''b'')))"
    by (intro built.intros)
  have r: "''bab'' \<in> alt (literal ''a'') (concat_p (literal ''a'') (literal ''b'')) ''abab''"
    by (simp add: alt_def literal_mem)
  show ?thesis using remainder_is_suffix [OF disjI1 [OF b] r] r by simp
qed


section \<open>More fuel does not change a result\<close>

lemma belowD: "below f f' \<Longrightarrow> f x \<sigma> = Some r \<Longrightarrow> f' x \<sigma> = Some r"
  by (simp add: below_def)

lemma concat_loop_mono:
  "below rhs rhs' \<Longrightarrow> concat_loop rhs rests acc \<sigma> = Some r \<Longrightarrow> concat_loop rhs' rests acc \<sigma> = Some r"
proof (induction rests arbitrary: acc \<sigma>)
  case Nil
  then show ?case by simp
next
  case (Cons rest rests)
  from Cons.prems(2) obtain x where x: "rhs rest \<sigma> = Some x"
    by (auto split: option.splits)
  then have x': "rhs' rest \<sigma> = Some x" using Cons.prems(1) by (rule belowD[rotated])
  show ?case
  proof (cases x)
    case (Inl e)
    with x x' Cons.prems(2) show ?thesis by simp
  next
    case (Inr b)
    obtain m \<sigma>' where "b = (m, \<sigma>')" by (cases b)
    with Inr x x' Cons.prems(2) Cons.IH[OF Cons.prems(1)] show ?thesis by simp
  qed
qed

lemma concat_s_mono:
  assumes "below lhs lhs'" "below rhs rhs'" "concat_s order lhs rhs input \<sigma> = Some r"
  shows "concat_s order lhs' rhs' input \<sigma> = Some r"
proof -
  from assms(3) obtain x where x: "lhs input \<sigma> = Some x"
    by (auto simp: concat_s_def split: option.splits)
  then have x': "lhs' input \<sigma> = Some x" using assms(1) by (rule belowD[rotated])
  show ?thesis
  proof (cases x)
    case (Inl e)
    from assms(3) show ?thesis by (auto simp: concat_s_def x x' Inl)
  next
    case (Inr b)
    obtain m \<sigma>1 where b: "b = (m, \<sigma>1)" by (cases b)
    from assms(3) x Inr b obtain y where y: "concat_loop rhs (order (elems m)) {} \<sigma>1 = Some y"
      by (auto simp: concat_s_def split: option.splits)
    then have y': "concat_loop rhs' (order (elems m)) {} \<sigma>1 = Some y"
      using assms(2) by (rule concat_loop_mono[rotated])
    from assms(3) show ?thesis by (simp add: concat_s_def x x' Inr b y y')
  qed
qed

lemma alt_s_mono:
  assumes "below lhs lhs'" "below rhs rhs'" "alt_s lhs rhs input \<sigma> = Some r"
  shows "alt_s lhs' rhs' input \<sigma> = Some r"
proof -
  from assms(3) obtain x where x: "lhs input \<sigma> = Some x"
    by (auto simp: alt_s_def split: option.splits)
  then have x': "lhs' input \<sigma> = Some x" using assms(1) by (rule belowD[rotated])
  show ?thesis
  proof (cases x)
    case (Inl e)
    from assms(3) show ?thesis by (auto simp: alt_s_def x x' Inl)
  next
    case (Inr b)
    obtain m \<sigma>1 where b: "b = (m, \<sigma>1)" by (cases b)
    from assms(3) x Inr b obtain y where y: "rhs input \<sigma>1 = Some y"
      by (auto simp: alt_s_def split: option.splits)
    then have y': "rhs' input \<sigma>1 = Some y"
      using assms(2) by (rule belowD[rotated])
    from assms(3) show ?thesis by (simp add: alt_s_def x x' Inr b y y')
  qed
qed

lemma parser_wrapper_mono:
  assumes "below p p'" "parser_wrapper n p input \<sigma> = Some r"
  shows "parser_wrapper n p' input \<sigma> = Some r"
proof (cases "parser_memotable \<sigma> n input = None \<and> \<not> parser_depthtable \<sigma> n input > length input + 1")
  case True
  with assms(2) obtain x where x: "p input (bump_depth n input \<sigma>) = Some x"
    by (auto simp: parser_wrapper_def split: option.splits)
  then have "p' input (bump_depth n input \<sigma>) = Some x"
    using assms(1) by (rule belowD[rotated])
  with x assms(2) True show ?thesis by (simp add: parser_wrapper_def)
next
  case False
  with assms(2) show ?thesis by (auto simp: parser_wrapper_def split: option.splits)
qed

lemma run_Suc_mono: "below (run order k p) (run order (Suc k) p)"
proof (induction k arbitrary: p)
  case 0
  show ?case by (simp add: below_def)
next
  case (Suc k)
  show ?case
  proof (cases p)
    case (Literal t)
    then show ?thesis by (simp add: below_def)
  next
    case (Concat l r)
    have "below (concat_s order (run order k l) (run order k r))
                (concat_s order (run order (Suc k) l) (run order (Suc k) r))"
      unfolding below_def using concat_s_mono[OF Suc.IH Suc.IH] by blast
    with Concat show ?thesis by simp
  next
    case (Alt l r)
    have "below (alt_s (run order k l) (run order k r))
                (alt_s (run order (Suc k) l) (run order (Suc k) r))"
      unfolding below_def using alt_s_mono[OF Suc.IH Suc.IH] by blast
    with Alt show ?thesis by simp
  next
    case (Deferred n)
    have "below (deferred (run order k) n) (deferred (run order (Suc k)) n)"
      unfolding below_def deferred_def
      using Suc.IH by (auto simp: below_def split: option.splits)
    with Deferred show ?thesis by simp
  next
    case (Wrapper n q)
    have "below (parser_wrapper n (run order k q)) (parser_wrapper n (run order (Suc k) q))"
      unfolding below_def using parser_wrapper_mono[OF Suc.IH] by blast
    with Wrapper show ?thesis by simp
  qed
qed

lemma run_mono: "k \<le> k' \<Longrightarrow> run order k p input \<sigma> = Some r \<Longrightarrow> run order k' p input \<sigma> = Some r"
proof (induction k' arbitrary: )
  case 0
  then show ?case by simp
next
  case (Suc k')
  show ?case
  proof (cases "k = Suc k'")
    case True
    with Suc.prems show ?thesis by simp
  next
    case False
    with Suc have "run order k' p input \<sigma> = Some r" by simp
    then show ?thesis using run_Suc_mono[of order k' p] by (simp add: below_def)
  qed
qed

lemma concat_parts_p1_mono:
  "below1 gp gp' \<Longrightarrow> concat_parts_p1 gp parser parts = Some r \<Longrightarrow>
   concat_parts_p1 gp' parser parts = Some r"
  by (induction parts arbitrary: parser)
     (auto simp: below1_def split: option.splits sum.splits)

lemma make_concat_p1_mono:
  "below1 gp gp' \<Longrightarrow> make_concat_p1 gp parts = Some r \<Longrightarrow> make_concat_p1 gp' parts = Some r"
  unfolding make_concat_p1_def
  by (auto simp: below1_def split: list.splits option.splits sum.splits
           dest: concat_parts_p1_mono[unfolded below1_def, rotated])

lemma alt_rules_p1_mono:
  "below1 gp gp' \<Longrightarrow> alt_rules_p1 gp parser rest = Some r \<Longrightarrow>
   alt_rules_p1 gp' parser rest = Some r"
proof (induction rest arbitrary: parser)
  case Nil
  then show ?case by simp
next
  case (Cons a rest)
  from Cons.prems(2) obtain x where x: "make_concat_p1 gp a = Some x"
    by (auto split: option.splits)
  then have x': "make_concat_p1 gp' a = Some x"
    using Cons.prems(1) by (rule make_concat_p1_mono[rotated])
  show ?case
  proof (cases x)
    case (Inl e)
    with Cons.prems(2) show ?thesis by (auto simp: x x')
  next
    case (Inr q)
    with Cons.prems(2) Cons.IH[OF Cons.prems(1)] show ?thesis by (auto simp: x x')
  qed
qed

lemma translate_p1_mono:
  assumes "below1 gp gp'" "translate_p1 gp rules n = Some r"
  shows "translate_p1 gp' rules n = Some r"
proof (cases "\<exists>r0 rest. rules n = Some (Alternatives (r0 # rest))")
  case True
  then obtain r0 rest where rn: "rules n = Some (Alternatives (r0 # rest))" by blast
  with assms(2) obtain x where x: "make_concat_p1 gp r0 = Some x"
    by (auto simp: translate_p1_def split: option.splits)
  then have x': "make_concat_p1 gp' r0 = Some x"
    using assms(1) by (rule make_concat_p1_mono[rotated])
  show ?thesis
  proof (cases x)
    case (Inl e)
    with assms(2) show ?thesis by (auto simp: translate_p1_def rn x x')
  next
    case (Inr q)
    with assms(2) alt_rules_p1_mono[OF assms(1)] show ?thesis
      by (auto simp: translate_p1_def rn x x')
  qed
next
  case False
  with assms(2) show ?thesis
    by (auto simp: translate_p1_def split: option.splits rule.splits list.splits)
qed

lemma get_parser_p1_Suc_mono: "below1 (get_parser_p1 k rules) (get_parser_p1 (Suc k) rules)"
proof (induction k)
  case 0
  show ?case by (simp add: below1_def)
next
  case (Suc k)
  have "get_parser_p1 (Suc k) rules = translate_p1 (get_parser_p1 k rules) rules"
    by (rule ext) simp
  moreover have "get_parser_p1 (Suc (Suc k)) rules = translate_p1 (get_parser_p1 (Suc k) rules) rules"
    by (rule ext) simp
  ultimately show ?case unfolding below1_def
    using translate_p1_mono[OF Suc.IH] by metis
qed

lemma get_parser_p1_mono:
  "k \<le> k' \<Longrightarrow> get_parser_p1 k rules n = Some r \<Longrightarrow> get_parser_p1 k' rules n = Some r"
proof (induction k')
  case 0
  then show ?case by simp
next
  case (Suc k')
  show ?case
  proof (cases "k = Suc k'")
    case True
    with Suc.prems show ?thesis by simp
  next
    case False
    with Suc have "get_parser_p1 k' rules n = Some r" by simp
    then show ?thesis using get_parser_p1_Suc_mono[of k' rules] unfolding below1_def by blast
  qed
qed

lemma concat_parts_p2_mono:
  "below gp gp' \<Longrightarrow> concat_parts_p2 gp parser parts \<sigma> = Some r \<Longrightarrow>
   concat_parts_p2 gp' parser parts \<sigma> = Some r"
proof (induction parts arbitrary: parser \<sigma>)
  case Nil
  then show ?case by simp
next
  case (Cons a parts)
  from Cons.prems(2) obtain x where x: "gp a \<sigma> = Some x"
    by (auto split: option.splits)
  then have x': "gp' a \<sigma> = Some x"
    using Cons.prems(1) by (rule belowD[rotated])
  show ?case
  proof (cases x)
    case (Inl e)
    with Cons.prems(2) show ?thesis by (auto simp: x x')
  next
    case (Inr b)
    obtain q \<sigma>' where "b = (q, \<sigma>')" by (cases b)
    with Inr Cons.prems(2) Cons.IH[OF Cons.prems(1)] show ?thesis by (auto simp: x x')
  qed
qed

lemma make_concat_p2_mono:
  assumes "below gp gp'" "make_concat_p2 gp parts \<sigma> = Some r"
  shows "make_concat_p2 gp' parts \<sigma> = Some r"
proof (cases parts)
  case Nil
  with assms(2) show ?thesis by (simp add: make_concat_p2_def)
next
  case (Cons a rest)
  with assms(2) obtain x where x: "gp a \<sigma> = Some x"
    by (auto simp: make_concat_p2_def split: option.splits)
  then have x': "gp' a \<sigma> = Some x"
    using assms(1) by (rule belowD[rotated])
  show ?thesis
  proof (cases x)
    case (Inl e)
    with assms(2) show ?thesis by (auto simp: make_concat_p2_def Cons x x')
  next
    case (Inr b)
    obtain q \<sigma>' where "b = (q, \<sigma>')" by (cases b)
    with Inr assms(2) concat_parts_p2_mono[OF assms(1)] show ?thesis
      by (auto simp: make_concat_p2_def Cons x x')
  qed
qed

lemma alt_rules_p2_mono:
  "below gp gp' \<Longrightarrow> alt_rules_p2 gp parser rest \<sigma> = Some r \<Longrightarrow>
   alt_rules_p2 gp' parser rest \<sigma> = Some r"
proof (induction rest arbitrary: parser \<sigma>)
  case Nil
  then show ?case by simp
next
  case (Cons a rest)
  from Cons.prems(2) obtain x where x: "make_concat_p2 gp a \<sigma> = Some x"
    by (auto split: option.splits)
  then have x': "make_concat_p2 gp' a \<sigma> = Some x"
    using Cons.prems(1) by (rule make_concat_p2_mono[rotated])
  show ?case
  proof (cases x)
    case (Inl e)
    with Cons.prems(2) show ?thesis by (auto simp: x x')
  next
    case (Inr b)
    obtain q \<sigma>' where "b = (q, \<sigma>')" by (cases b)
    with Inr Cons.prems(2) Cons.IH[OF Cons.prems(1)] show ?thesis by (auto simp: x x')
  qed
qed

lemma translate_p2_mono:
  assumes "below gp gp'" "translate_p2 gp rules n \<sigma> = Some r"
  shows "translate_p2 gp' rules n \<sigma> = Some r"
proof (cases "\<exists>r0 rest. rules n = Some (Alternatives (r0 # rest))")
  case True
  then obtain r0 rest where rn: "rules n = Some (Alternatives (r0 # rest))" by blast
  with assms(2) obtain x where x: "make_concat_p2 gp r0 \<sigma> = Some x"
    by (auto simp: translate_p2_def split: option.splits)
  then have x': "make_concat_p2 gp' r0 \<sigma> = Some x"
    using assms(1) by (rule make_concat_p2_mono[rotated])
  show ?thesis
  proof (cases x)
    case (Inl e)
    with assms(2) show ?thesis by (auto simp: translate_p2_def rn x x')
  next
    case (Inr b)
    obtain q \<sigma>' where "b = (q, \<sigma>')" by (cases b)
    with Inr assms(2) alt_rules_p2_mono[OF assms(1)] show ?thesis
      by (auto simp: translate_p2_def rn x x')
  qed
next
  case False
  with assms(2) show ?thesis
    by (auto simp: translate_p2_def split: option.splits rule.splits list.splits)
qed

lemma get_parser_mono:
  assumes "below f f'" "get_parser f n \<sigma> = Some r"
  shows "get_parser f' n \<sigma> = Some r"
proof (cases "parser_table \<sigma> n")
  case None
  with assms(2) obtain x where x: "f n (install n (Deferred n) \<sigma>) = Some x"
    by (auto simp: get_parser_def split: option.splits)
  then have "f' n (install n (Deferred n) \<sigma>) = Some x"
    using assms(1) by (rule belowD[rotated])
  with x assms(2) None show ?thesis by (simp add: get_parser_def)
next
  case (Some p)
  with assms(2) show ?thesis by (simp add: get_parser_def)
qed

lemma get_parser_part2_Suc_mono:
  "below (get_parser_part2 k rules) (get_parser_part2 (Suc k) rules)"
proof (induction k)
  case 0
  show ?case by (simp add: below_def)
next
  case (Suc k)
  have "below (translate_p2 (get_parser_part2 k rules) rules)
              (translate_p2 (get_parser_part2 (Suc k) rules) rules)"
    unfolding below_def using translate_p2_mono[OF Suc.IH] by blast
  then show ?case unfolding below_def[of "get_parser_part2 (Suc k) rules"]
    using get_parser_mono by simp
qed

lemma get_parser_part2_mono:
  "k \<le> k' \<Longrightarrow> get_parser_part2 k rules n \<sigma> = Some r \<Longrightarrow> get_parser_part2 k' rules n \<sigma> = Some r"
proof (induction k')
  case 0
  then show ?case by simp
next
  case (Suc k')
  show ?case
  proof (cases "k = Suc k'")
    case True
    with Suc.prems show ?thesis by simp
  next
    case False
    with Suc have "get_parser_part2 k' rules n \<sigma> = Some r" by simp
    then show ?thesis using get_parser_part2_Suc_mono[of k' rules] unfolding below_def by blast
  qed
qed

section \<open>Iteration orders\<close>

lemma enumerates_empty: "enumerates order \<Longrightarrow> order {} = []"
  unfolding enumerates_def by (metis finite.emptyI set_empty)

lemma enumerates_single: 
  assumes "enumerates order" shows "order {x} = [x]"
proof -
  from assms have s: "set (order {x}) = {x}" and d: "distinct (order {x})"
    by (simp_all add: enumerates_def)
  from s obtain y ys where o: "order {x} = y # ys" by (cases "order {x}") auto
  with s d have "y = x" "set ys \<subseteq> {x}" "x \<notin> set ys" by auto
  then have "ys = []" by (cases ys) auto
  with o \<open>y = x\<close> show ?thesis by simp
qed

lemma enumerates_lex_order: "enumerates lex_order"
  by (simp add: enumerates_def lex_order_def)

section \<open>The creators on closures without state\<close>

text \<open>
  On closures that do not touch the tables, the three creators as \<open>run\<close> applies them
  are the pure creators of the combinator library. For \<^verbatim>\<open>concat\<close> the order of the
  iteration is then irrelevant.
\<close>

lemma literal_s_pure: "literal_s t = pure_s (literal t)"
  by (rule ext, rule ext) (simp add: literal_s_def pure_s_def)

lemma alt_s_pure: "alt_s (pure_s a) (pure_s b) = pure_s (alt a b)"
  by (rule ext, rule ext) (simp add: alt_s_def pure_s_def alt_def)

lemma concat_loop_pure:
  "concat_loop (pure_s b) xs acc \<sigma> = Some (Inr (acc \<union> (\<Union>x \<in> set xs. b x), \<sigma>))"
  by (induction xs arbitrary: acc) (auto simp: pure_s_def)

lemma concat_s_pure:
  assumes "enumerates order" and "\<And>s. finite (a s)"
  shows "concat_s order (pure_s a) (pure_s b) = pure_s (concat_p a b)"
proof (rule ext, rule ext)
  fix input \<sigma>
  have "set (order (a input)) = a input"
    using assms by (simp add: enumerates_def)
  then show "concat_s order (pure_s a) (pure_s b) input \<sigma> = pure_s (concat_p a b) input \<sigma>"
    by (simp add: concat_s_def concat_loop_pure concat_p_def pure_s_def)
qed

section \<open>Evaluating the model\<close>

lemmas unfold_run = get_parser_def translate_p2_def make_concat_p2_def install_def fresh_tables_def
  init_def parser_wrapper_def alt_s_def concat_s_def literal_s_def deferred_def bump_depth_def
  store_memo_def literal_def startswith_def

lemmas unfold_p1 = translate_p1_def make_concat_p1_def

section \<open>The recursion guard\<close>

lemma parser_wrapper_hit:
  "parser_memotable \<sigma> n s = Some m \<Longrightarrow> parser_wrapper n p s \<sigma> = Some (Inr (m, \<sigma>))"
  by (simp add: parser_wrapper_def)

lemma parser_wrapper_guard:
  "parser_memotable \<sigma> n s = None \<Longrightarrow> length s + 1 < parser_depthtable \<sigma> n s \<Longrightarrow>
   parser_wrapper n p s \<sigma> = Some (Inr (EmptyDict, \<sigma>))"
  by (simp add: parser_wrapper_def)

lemma parser_wrapper_enter:
  "parser_memotable \<sigma> n s = None \<Longrightarrow> \<not> length s + 1 < parser_depthtable \<sigma> n s \<Longrightarrow>
   parser_wrapper n p s \<sigma> =
     (case p s (bump_depth n s \<sigma>) of
        None \<Rightarrow> None
      | Some (Inl e) \<Rightarrow> Some (Inl e)
      | Some (Inr (m, \<sigma>')) \<Rightarrow> Some (Inr (m, store_memo n s m \<sigma>')))"
  by (simp add: parser_wrapper_def)

lemma parser_wrapper_twice:
  assumes "parser_wrapper n p s \<sigma> = Some (Inr (m, \<sigma>1))"
  shows "parser_wrapper n p' s \<sigma>1 = Some (Inr (m, \<sigma>1))"
proof (cases "parser_memotable \<sigma> n s")
  case (Some m')
  with assms show ?thesis by (auto simp: parser_wrapper_def)
next
  case None
  show ?thesis
  proof (cases "length s + 1 < parser_depthtable \<sigma> n s")
    case True
    with None assms show ?thesis by (auto simp: parser_wrapper_def)
  next
    case False
    with None assms obtain \<sigma>' where "p s (bump_depth n s \<sigma>) = Some (Inr (m, \<sigma>'))"
      and "\<sigma>1 = store_memo n s m \<sigma>'"
      by (auto simp: parser_wrapper_def split: option.splits sum.splits)
    then have "parser_memotable \<sigma>1 n s = Some m" by (simp add: store_memo_def)
    then show ?thesis by (rule parser_wrapper_hit)
  qed
qed

text \<open>
  C9. When a call of a guard-wrapped matcher on an input returns, a second call on the
  same input, made in the state that the first call left, returns the same value and
  leaves the state as it is: the second call is answered from the memo table (or, when the
  first call was cut by the depth bound, cut again), and the depth counter of the rule for
  that input keeps the value it had after the first call.
\<close>

theorem second_call_is_idempotent:
  assumes "run order fuel (Wrapper n p) s \<sigma> = Some (Inr (m, \<sigma>1))"
  shows "run order (Suc fuel') (Wrapper n p) s \<sigma>1 = Some (Inr (m, \<sigma>1))"
proof -
  from assms obtain k where "fuel = Suc k" by (cases fuel) auto
  with assms have "parser_wrapper n (run order k p) s \<sigma> = Some (Inr (m, \<sigma>1))" by simp
  then have "parser_wrapper n (run order fuel' p) s \<sigma>1 = Some (Inr (m, \<sigma>1))"
    by (rule parser_wrapper_twice)
  then show ?thesis by simp
qed

theorem second_call_is_idempotent_witness:
  "\<exists>\<sigma>1. run lex_order 2 (Wrapper 42 (Literal ''a'')) ''aaa'' init = Some (Inr (Matches {''aa''}, \<sigma>1)) \<and>
         run lex_order (Suc 0) (Wrapper 42 (Literal ''a'')) ''aaa'' \<sigma>1 = Some (Inr (Matches {''aa''}, \<sigma>1)) \<and>
         parser_depthtable \<sigma>1 42 ''aaa'' = 1"
proof -
  obtain \<sigma>1 where r: "run lex_order 2 (Wrapper 42 (Literal ''a'')) ''aaa'' init = Some (Inr (Matches {''aa''}, \<sigma>1))"
    and d: "parser_depthtable \<sigma>1 42 ''aaa'' = 1"
    by (simp add: numeral_eq_Suc unfold_run)
  from second_call_is_idempotent [OF r, of 0] r d show ?thesis by blast
qed

text \<open>
  C3. The guard of a rule, called on a string: with a memo entry it returns the entry
  (\<open>parser_wrapper_hit\<close>); with no entry and a depth counter above \<open>length string + 1\<close> it
  returns at once, without counting and without calling the matcher; otherwise it counts,
  calls the matcher, stores the result and returns it (\<open>parser_wrapper_enter\<close>). The claim
  names the value of the second case the empty set. The code returns \<^verbatim>\<open>{}\<close>, which in
  Python is the empty dict: \<open>parser_wrapper\<close> returns \<open>EmptyDict\<close> and leaves the state
  unchanged. The value is not a set, and \<^verbatim>\<open>alt\<close> raises TypeError on it: on the input
  file \<open>guard_lines\<close> part 1 prints 1 and part 2 ends in a TypeError, for every iteration
  order.
\<close>

theorem guard_returns_empty_dict:
  "parser_wrapper n parser string
     (\<sigma>\<lparr>parser_memotable := (parser_memotable \<sigma>)(n := Map.empty),
        parser_depthtable := (parser_depthtable \<sigma>)(n := (\<lambda>s. length s + 2))\<rparr>) =
   Some (Inr (EmptyDict,
     \<sigma>\<lparr>parser_memotable := (parser_memotable \<sigma>)(n := Map.empty),
       parser_depthtable := (parser_depthtable \<sigma>)(n := (\<lambda>s. length s + 2))\<rparr>)) \<and>
   EmptyDict \<noteq> Matches {} \<and>
   part1 3 guard_rules guard_lines = Some (Inr 1) \<and>
   part2 order 30 guard_rules guard_lines = Some (Inl TypeError)"
proof -
  have 1: "part1 3 guard_rules guard_lines = Some (Inr 1)"
    by (simp add: part1_def numeral_eq_Suc unfold_p1 guard_rules_def guard_lines_def
        concat_p_def literal_def startswith_def)
  have 2: "part2 order 30 guard_rules guard_lines = Some (Inl TypeError)"
    by (simp add: part2_def numeral_eq_Suc unfold_run part2_rules_def guard_rules_def
        guard_lines_def)
  from 1 2 show ?thesis by (simp add: parser_wrapper_def)
qed

text \<open>
  C4. With rule 8 the alternatives \<open>[[42], [42, 8]]\<close> and rule 42 the terminal \<open>a\<close>, the
  memoized translation of rule 8 returns, and the matcher that it returns, called on
  \<open>aaa\<close>, returns a set that contains the empty string; called on \<open>aab\<close>, in the state
  after the translation or after the call on \<open>aaa\<close>, it returns a set without the empty
  string. This holds for every iteration order of sets.
\<close>

theorem rule_8_terminates:
  assumes "enumerates order"
    and "rules 8 = Some (Alternatives [[42], [42, 8]])"
    and "rules 42 = Some (Terminal ''a'')"
  shows "\<exists>fuel parser \<sigma> \<sigma>1 \<sigma>2 \<sigma>3.
           get_parser_part2 fuel rules 8 init = Some (Inr (parser, \<sigma>)) \<and>
           run order fuel parser ''aaa'' \<sigma> = Some (Inr (Matches {''aa'', ''a'', ''''}, \<sigma>1)) \<and>
           run order fuel parser ''aab'' \<sigma> = Some (Inr (Matches {''ab'', ''b''}, \<sigma>2)) \<and>
           run order fuel parser ''aab'' \<sigma>1 = Some (Inr (Matches {''ab'', ''b''}, \<sigma>3))"
proof -
  note o = enumerates_empty[OF assms(1)] enumerates_single[OF assms(1)]
  let ?p = "Wrapper 8 (Alt (Wrapper 42 (Literal ''a'')) (Concat (Literal ''a'') (Deferred 8)))"
  obtain \<sigma> where c: "get_parser_part2 14 rules 8 init = Some (Inr (?p, \<sigma>))"
    and \<sigma>: "\<sigma> = fresh_tables 8 (install 8 (Alt (Wrapper 42 (Literal ''a'')) (Concat (Literal ''a'') (Deferred 8)))
          (fresh_tables 42 (install 42 (Literal ''a'') (install 42 (Deferred 42) (install 8 (Deferred 8) init)))))"
    using assms(2,3)
    by (simp add: numeral_eq_Suc get_parser_def translate_p2_def make_concat_p2_def install_def fresh_tables_def init_def)
  have r13: "\<exists>\<sigma>1 \<sigma>3.
      run order 14 ?p ''aaa'' \<sigma> = Some (Inr (Matches {''aa'', ''a'', ''''}, \<sigma>1)) \<and>
      run order 14 ?p ''aab'' \<sigma>1 = Some (Inr (Matches {''ab'', ''b''}, \<sigma>3))"
    unfolding \<sigma> using o
    by (simp add: numeral_eq_Suc unfold_run insert_commute)
  have r2: "\<exists>\<sigma>2. run order 14 ?p ''aab'' \<sigma> = Some (Inr (Matches {''ab'', ''b''}, \<sigma>2))"
    unfolding \<sigma> using o
    by (simp add: numeral_eq_Suc unfold_run insert_commute)
  from c r13 r2 show ?thesis by blast
qed

theorem rule_8_terminates_witness:
  "enumerates lex_order \<and>
   rules_8_42 8 = Some (Alternatives [[42], [42, 8]]) \<and>
   rules_8_42 42 = Some (Terminal ''a'') \<and>
   (\<exists>fuel parser \<sigma> \<sigma>1 \<sigma>2 \<sigma>3.
      get_parser_part2 fuel rules_8_42 8 init = Some (Inr (parser, \<sigma>)) \<and>
      run lex_order fuel parser ''aaa'' \<sigma> = Some (Inr (Matches {''aa'', ''a'', ''''}, \<sigma>1)) \<and>
      run lex_order fuel parser ''aab'' \<sigma> = Some (Inr (Matches {''ab'', ''b''}, \<sigma>2)) \<and>
      run lex_order fuel parser ''aab'' \<sigma>1 = Some (Inr (Matches {''ab'', ''b''}, \<sigma>3)))"
proof -
  have a: "rules_8_42 8 = Some (Alternatives [[42], [42, 8]])"
    and b: "rules_8_42 42 = Some (Terminal ''a'')"
    by (simp_all add: rules_8_42_def)
  show ?thesis
    using rule_8_terminates [OF enumerates_lex_order a b] enumerates_lex_order a b by simp
qed

section \<open>Calls that do not return\<close>

lemma wrapper_diverges:
  "parser_memotable \<sigma> n s = None \<Longrightarrow> \<not> length s + 1 < parser_depthtable \<sigma> n s \<Longrightarrow>
   (\<And>k. run order k q s (bump_depth n s \<sigma>) = None) \<Longrightarrow>
   run order k (Wrapper n q) s \<sigma> = None"
  by (cases k) (simp_all add: parser_wrapper_def)

lemma alt_diverges: "(\<And>k. run order k l s \<sigma> = None) \<Longrightarrow> run order k (Alt l r) s \<sigma> = None"
  by (cases k) (simp_all add: alt_s_def)

lemma concat_diverges:
  "(\<And>k. run order k l s \<sigma> = None) \<Longrightarrow> run order k (Concat l r) s \<sigma> = None"
  by (cases k) (simp_all add: concat_s_def)

lemma deferred_diverges:
  "parser_table \<sigma> n = Some q \<Longrightarrow> (\<And>k. run order k q s \<sigma> = None) \<Longrightarrow>
   run order k (Deferred n) s \<sigma> = None"
  by (cases k) (simp_all add: deferred_def)

lemma left_recursion_diverges:
  "parser_table \<sigma> n = Some (Alt (Concat (Deferred n) q) r) \<Longrightarrow>
   run order k (Alt (Concat (Deferred n) q) r) s \<sigma> = None"
proof (induction k rule: less_induct)
  case (less k)
  show ?case
  proof (cases k)
    case 0
    then show ?thesis by simp
  next
    case k1: (Suc k1)
    show ?thesis
    proof (cases k1)
      case 0
      with k1 show ?thesis by (simp add: alt_s_def)
    next
      case k2: (Suc k2)
      show ?thesis
      proof (cases k2)
        case 0
        with k1 k2 show ?thesis by (simp add: alt_s_def concat_s_def)
      next
        case (Suc k3)
        then have "k3 < k" using k1 k2 by simp
        then have "run order k3 (Alt (Concat (Deferred n) q) r) s \<sigma> = None"
          using less by blast
        with k1 k2 Suc less.prems show ?thesis
          by (simp add: alt_s_def concat_s_def deferred_def)
      qed
    qed
  qed
qed

text \<open>
  C2. The claim says that every call of the matcher of a rule goes through the guard of
  that rule. The parser table keeps the matcher without the guard
  (\<^verbatim>\<open>parser_table[n] = parser\<close>), so a reference that is resolved through the table
  calls the unguarded matcher. On the input file \<open>left_recursive_lines\<close> part 1 prints 1;
  in part 2 the table entry of rule 42 is the unguarded matcher, the call of the start
  matcher on the first line does not return for any fuel, and neither does part 2.
\<close>

theorem recursion_bypasses_guard:
  "part1 3 left_recursive_rules left_recursive_lines = Some (Inr 1) \<and>
   (\<exists>parser \<sigma>.
      get_parser_part2 5 (part2_rules left_recursive_rules) 0 init = Some (Inr (parser, \<sigma>)) \<and>
      parser_table \<sigma> 42 =
        Some (Alt (Concat (Deferred 42) (Wrapper 1 (Literal ''a''))) (Literal ''a'')) \<and>
      (\<forall>fuel. run order fuel parser ''0: 8'' \<sigma> = None)) \<and>
   (\<forall>fuel. part2 order fuel left_recursive_rules left_recursive_lines = None)"
proof -
  let ?b = "Alt (Concat (Deferred 42) (Wrapper 1 (Literal ''a''))) (Literal ''a'')"
  let ?p = "Wrapper 0 (Wrapper 8 (Alt (Wrapper 42 ?b) (Concat ?b (Deferred 8))))"
  have 1: "part1 3 left_recursive_rules left_recursive_lines = Some (Inr 1)"
    by (simp add: part1_def numeral_eq_Suc unfold_p1 left_recursive_rules_def
        left_recursive_lines_def concat_p_def literal_def startswith_def)
  obtain \<sigma> where c: "get_parser_part2 5 (part2_rules left_recursive_rules) 0 init = Some (Inr (?p, \<sigma>))"
    and t: "parser_table \<sigma> 42 = Some ?b"
    and m: "parser_memotable \<sigma> = (\<lambda>n. Map.empty)"
    and d: "parser_depthtable \<sigma> = (\<lambda>n s. 0)"
    by (simp add: numeral_eq_Suc get_parser_def translate_p2_def make_concat_p2_def install_def
        fresh_tables_def init_def part2_rules_def left_recursive_rules_def fun_eq_iff)
  have div: "run order k ?p s \<sigma> = None" for k s
    apply (rule wrapper_diverges)
      apply (simp add: m)
     apply (simp add: d)
    apply (rule wrapper_diverges)
      apply (simp add: m bump_depth_def)
     apply (simp add: d bump_depth_def)
    apply (rule alt_diverges)
    apply (rule wrapper_diverges)
      apply (simp add: m bump_depth_def)
     apply (simp add: d bump_depth_def)
    apply (rule left_recursion_diverges)
    apply (simp add: t bump_depth_def)
    done
  have "part2 order fuel left_recursive_rules left_recursive_lines = None" for fuel
  proof (cases "get_parser_part2 fuel (part2_rules left_recursive_rules) 0 init")
    case None
    then show ?thesis by (simp add: part2_def)
  next
    case (Some r)
    have "get_parser_part2 (max fuel 5) (part2_rules left_recursive_rules) 0 init = Some r"
      using Some by (rule get_parser_part2_mono[rotated]) simp
    moreover have "get_parser_part2 (max fuel 5) (part2_rules left_recursive_rules) 0 init = Some (Inr (?p, \<sigma>))"
      using c by (rule get_parser_part2_mono[rotated]) simp
    ultimately have "r = Inr (?p, \<sigma>)" by simp
    with Some show ?thesis
      by (simp add: part2_def left_recursive_lines_def div)
  qed
  with 1 c t div show ?thesis by blast
qed

section \<open>The counting loops\<close>

text \<open>
  C1. The claim says that the count is taken over the strings after the empty line. Both
  counting loops iterate over \<^verbatim>\<open>input_lines\<close>, all lines of the file. On the input
  file \<open>self_matching_lines\<close> the only string after the empty line is \<open>x\<close>, which the
  start rule does not match (count 0), and both parts report 1, because the rule line
  \<^verbatim>\<open>0: 2 3\<close> is matched by rule 0.
\<close>

theorem driver_tests_every_input_line:
  "strings self_matching_lines = Inr [''x''] \<and>
   (\<exists>parser. get_parser_p1 2 self_matching_rules 0 = Some (Inr parser) \<and>
      count_p1 parser [''x''] 0 = 0) \<and>
   part1 2 self_matching_rules self_matching_lines = Some (Inr 1) \<and>
   (\<exists>parser \<sigma> \<sigma>'. get_parser_part2 4 (part2_rules self_matching_rules) 0 init = Some (Inr (parser, \<sigma>)) \<and>
      count_p2 (run lex_order 4 parser) [''x''] 0 \<sigma> = Some (Inr (0, \<sigma>'))) \<and>
   (\<exists>\<sigma>. part2 lex_order 4 self_matching_rules self_matching_lines = Some (Inr (1, \<sigma>)))"
proof -
  note o = enumerates_empty[OF enumerates_lex_order] enumerates_single[OF enumerates_lex_order]
  have 1: "strings self_matching_lines = Inr [''x'']"
    by (simp add: strings_def self_matching_lines_def)
  have 2: "\<exists>parser. get_parser_p1 2 self_matching_rules 0 = Some (Inr parser) \<and>
      count_p1 parser [''x''] 0 = 0"
    by (simp add: numeral_eq_Suc unfold_p1 self_matching_rules_def concat_p_def literal_def startswith_def)
  have 3: "part1 2 self_matching_rules self_matching_lines = Some (Inr 1)"
    by (simp add: part1_def numeral_eq_Suc unfold_p1 self_matching_rules_def self_matching_lines_def
        concat_p_def literal_def startswith_def)
  have 4: "\<exists>parser \<sigma> \<sigma>'. get_parser_part2 4 (part2_rules self_matching_rules) 0 init = Some (Inr (parser, \<sigma>)) \<and>
      count_p2 (run lex_order 4 parser) [''x''] 0 \<sigma> = Some (Inr (0, \<sigma>'))"
    using o
    by (simp add: numeral_eq_Suc unfold_run part2_rules_def self_matching_rules_def)
  have 5: "\<exists>\<sigma>. part2 lex_order 4 self_matching_rules self_matching_lines = Some (Inr (1, \<sigma>))"
    using o
    by (simp add: part2_def numeral_eq_Suc unfold_run part2_rules_def self_matching_rules_def
        self_matching_lines_def)
  from 1 2 3 4 5 show ?thesis by blast
qed

section \<open>Part 2 agrees with part 1 on grammars without recursion\<close>

lemma finite_literal: "finite (literal t s)"
  by (simp add: literal_def)

lemma finite_den: "finite (den p s)"
  by (induction p arbitrary: s) (auto simp: finite_literal concat_p_def alt_def)

lemma run_below: "k \<le> k' \<Longrightarrow> below (run order k p) (run order k' p)"
  unfolding below_def using run_mono by blast

lemma concat_loop_ok:
  assumes r: "\<And>s \<sigma>. memo_ok A \<sigma> \<Longrightarrow> parser_table \<sigma> = T \<Longrightarrow>
            \<exists>k \<sigma>'. run order k p s \<sigma> = Some (Inr (Matches (den p s), \<sigma>')) \<and> memo_ok A \<sigma>' \<and> parser_table \<sigma>' = T"
  shows "memo_ok A \<sigma> \<Longrightarrow> parser_table \<sigma> = T \<Longrightarrow>
         \<exists>k \<sigma>'. concat_loop (run order k p) xs acc \<sigma> = Some (Inr (acc \<union> (\<Union>x \<in> set xs. den p x), \<sigma>'))
            \<and> memo_ok A \<sigma>' \<and> parser_table \<sigma>' = T"
proof (induction xs arbitrary: acc \<sigma>)
  case Nil
  then show ?case by simp
next
  case (Cons x xs)
  from r[OF Cons.prems] obtain k1 \<sigma>1 where
    1: "run order k1 p x \<sigma> = Some (Inr (Matches (den p x), \<sigma>1))" and m1: "memo_ok A \<sigma>1"
    and t1: "parser_table \<sigma>1 = T" by blast
  from Cons.IH[OF m1 t1, of "acc \<union> den p x"] obtain k2 \<sigma>2 where
    2: "concat_loop (run order k2 p) xs (acc \<union> den p x) \<sigma>1 =
          Some (Inr (acc \<union> den p x \<union> (\<Union>x \<in> set xs. den p x), \<sigma>2))"
    and m2: "memo_ok A \<sigma>2" and t2: "parser_table \<sigma>2 = T" by blast
  let ?k = "max k1 k2"
  have l1: "run order ?k p x \<sigma> = Some (Inr (Matches (den p x), \<sigma>1))"
    using 1 by (rule run_mono[rotated]) simp
  have l2: "concat_loop (run order ?k p) xs (acc \<union> den p x) \<sigma>1 =
          Some (Inr (acc \<union> den p x \<union> (\<Union>x \<in> set xs. den p x), \<sigma>2))"
    using 2 by (rule concat_loop_mono[rotated]) (rule run_below, simp)
  have "acc \<union> den p x \<union> (\<Union>x \<in> set xs. den p x) = acc \<union> (\<Union>x \<in> set (x # xs). den p x)"
    by auto
  with l1 l2 m2 t2 show ?case by (intro exI[of _ ?k] exI[of _ \<sigma>2]) simp
qed

lemma run_ok:
  assumes e: "enumerates order"
  shows "ok (parser_table \<sigma>) p \<Longrightarrow> memo_ok A \<sigma> \<Longrightarrow> fst ` A \<inter> wids p = {} \<Longrightarrow>
         \<exists>k \<sigma>'. run order k p s \<sigma> = Some (Inr (Matches (den p s), \<sigma>')) \<and> memo_ok A \<sigma>' \<and>
                parser_table \<sigma>' = parser_table \<sigma>"
proof (induction p arbitrary: s \<sigma> A)
  case (Literal t)
  have "run order (Suc 0) (Literal t) s \<sigma> = Some (Inr (Matches (den (Literal t) s), \<sigma>))"
    by (simp add: literal_s_def)
  with Literal.prems show ?case by blast
next
  case (Concat l r)
  let ?T = "parser_table \<sigma>"
  from Concat.prems have okl: "ok ?T l" and okr: "ok ?T r"
    and dl: "fst ` A \<inter> wids l = {}" and dr: "fst ` A \<inter> wids r = {}" by auto
  from Concat.IH(1)[OF okl Concat.prems(2) dl] obtain k1 \<sigma>1 where
    1: "run order k1 l s \<sigma> = Some (Inr (Matches (den l s), \<sigma>1))" and m1: "memo_ok A \<sigma>1"
    and t1: "parser_table \<sigma>1 = ?T" by blast
  have "\<And>s \<sigma>'. memo_ok A \<sigma>' \<Longrightarrow> parser_table \<sigma>' = ?T \<Longrightarrow>
            \<exists>k \<sigma>''. run order k r s \<sigma>' = Some (Inr (Matches (den r s), \<sigma>'')) \<and> memo_ok A \<sigma>'' \<and> parser_table \<sigma>'' = ?T"
    using Concat.IH(2) okr dr by metis
  from concat_loop_ok[of A ?T order r, OF this m1 t1, of "order (den l s)" "{}"]
  obtain k2 \<sigma>2 where
    2: "concat_loop (run order k2 r) (order (den l s)) {} \<sigma>1 =
          Some (Inr ({} \<union> (\<Union>x \<in> set (order (den l s)). den r x), \<sigma>2))"
    and m2: "memo_ok A \<sigma>2" and t2: "parser_table \<sigma>2 = ?T" by blast
  have so: "set (order (den l s)) = den l s"
    using e finite_den[of l s] by (simp add: enumerates_def)
  let ?k = "max k1 k2"
  have l1: "run order ?k l s \<sigma> = Some (Inr (Matches (den l s), \<sigma>1))"
    using 1 by (rule run_mono[rotated]) simp
  have l2: "concat_loop (run order ?k r) (order (den l s)) {} \<sigma>1 =
          Some (Inr ({} \<union> (\<Union>x \<in> set (order (den l s)). den r x), \<sigma>2))"
    using 2 by (rule concat_loop_mono[rotated]) (rule run_below, simp)
  have "run order (Suc ?k) (Concat l r) s \<sigma> = Some (Inr (Matches (den (Concat l r) s), \<sigma>2))"
    using l1 l2 by (simp add: concat_s_def so concat_p_def)
  with m2 t2 show ?case by blast
next
  case (Alt l r)
  let ?T = "parser_table \<sigma>"
  from Alt.prems have okl: "ok ?T l" and okr: "ok ?T r"
    and dl: "fst ` A \<inter> wids l = {}" and dr: "fst ` A \<inter> wids r = {}" by auto
  from Alt.IH(1)[OF okl Alt.prems(2) dl] obtain k1 \<sigma>1 where
    1: "run order k1 l s \<sigma> = Some (Inr (Matches (den l s), \<sigma>1))" and m1: "memo_ok A \<sigma>1"
    and t1: "parser_table \<sigma>1 = ?T" by blast
  from okr t1 have okr1: "ok (parser_table \<sigma>1) r" by simp
  from Alt.IH(2)[OF okr1 m1 dr] obtain k2 \<sigma>2 where
    2: "run order k2 r s \<sigma>1 = Some (Inr (Matches (den r s), \<sigma>2))" and m2: "memo_ok A \<sigma>2"
    and t2: "parser_table \<sigma>2 = parser_table \<sigma>1" by blast
  let ?k = "max k1 k2"
  have l1: "run order ?k l s \<sigma> = Some (Inr (Matches (den l s), \<sigma>1))"
    using 1 by (rule run_mono[rotated]) simp
  have l2: "run order ?k r s \<sigma>1 = Some (Inr (Matches (den r s), \<sigma>2))"
    using 2 by (rule run_mono[rotated]) simp
  have "run order (Suc ?k) (Alt l r) s \<sigma> = Some (Inr (Matches (den (Alt l r) s), \<sigma>2))"
    using l1 l2 by (simp add: alt_s_def alt_def)
  with m2 t2 t1 show ?case by (intro exI[of _ "Suc ?k"] exI[of _ \<sigma>2]) simp
next
  case (Deferred n)
  then show ?case by simp
next
  case (Wrapper n q)
  let ?T = "parser_table \<sigma>"
  from Wrapper.prems have tn: "?T n = Some q" and nq: "n \<notin> wids q" and okq: "ok ?T q"
    and nA: "n \<notin> fst ` A" and dq: "fst ` A \<inter> wids q = {}" by auto
  show ?case
  proof (cases "parser_memotable \<sigma> n s")
    case (Some v)
    with Wrapper.prems(2) tn have v: "v = Matches (den q s)" unfolding memo_ok_def by (metis option.inject)
    have "run order (Suc 0) (Wrapper n q) s \<sigma> = Some (Inr (Matches (den (Wrapper n q) s), \<sigma>))"
      using Some v by (simp add: parser_wrapper_def)
    with Wrapper.prems(2) show ?thesis by blast
  next
    case None
    from nA have "(n, s) \<notin> A" by force
    with None Wrapper.prems(2) have d0: "parser_depthtable \<sigma> n s = 0" by (simp add: memo_ok_def)
    let ?\<sigma>1 = "bump_depth n s \<sigma>"
    have m1: "memo_ok (insert (n, s) A) ?\<sigma>1"
      using Wrapper.prems(2) by (auto simp: memo_ok_def bump_depth_def)
    have t1: "parser_table ?\<sigma>1 = ?T" by (simp add: bump_depth_def)
    have d1: "fst ` insert (n, s) A \<inter> wids q = {}" using nq dq by auto
    from okq t1 have "ok (parser_table ?\<sigma>1) q" by simp
    from Wrapper.IH[OF this m1 d1] obtain k \<sigma>2 where
      2: "run order k q s ?\<sigma>1 = Some (Inr (Matches (den q s), \<sigma>2))"
      and m2: "memo_ok (insert (n, s) A) \<sigma>2" and t2: "parser_table \<sigma>2 = ?T"
      using t1 by metis
    let ?\<sigma>3 = "store_memo n s (Matches (den q s)) \<sigma>2"
    have r: "run order (Suc k) (Wrapper n q) s \<sigma> = Some (Inr (Matches (den (Wrapper n q) s), ?\<sigma>3))"
      using None d0 2 by (simp add: parser_wrapper_def)
    have t3: "parser_table ?\<sigma>3 = ?T" using t2 by (simp add: store_memo_def)
    have m3: "memo_ok A ?\<sigma>3"
      unfolding memo_ok_def
    proof (intro conjI allI impI)
      fix n' s' v
      assume a: "parser_memotable ?\<sigma>3 n' s' = Some v"
      show "\<exists>q'. parser_table ?\<sigma>3 n' = Some q' \<and> v = Matches (den q' s')"
      proof (cases "n' = n \<and> s' = s")
        case True
        with a have "v = Matches (den q s)" by (simp add: store_memo_def)
        with True tn t3 show ?thesis by simp
      next
        case False
        with a have "parser_memotable \<sigma>2 n' s' = Some v"
          by (auto simp: store_memo_def split: if_splits)
        with m2 obtain q' where "parser_table \<sigma>2 n' = Some q'" "v = Matches (den q' s')"
          unfolding memo_ok_def by blast
        then show ?thesis by (simp add: store_memo_def)
      qed
    next
      fix n' s'
      assume "(n', s') \<notin> A" "parser_memotable ?\<sigma>3 n' s' = None"
      then show "parser_depthtable ?\<sigma>3 n' s' = 0"
        using m2 by (auto simp: memo_ok_def store_memo_def split: if_splits)
    qed
    from r m3 t3 show ?thesis by blast
  qed
qed

lemma ok_ext: "ok T q \<Longrightarrow> ext T T' \<Longrightarrow> ok T' q"
  by (induction q) (auto simp: ext_def)

lemma good_ext: "good rules T m \<Longrightarrow> ext T T' \<Longrightarrow> good rules T' m"
  unfolding good_def using ok_ext by (metis ext_def)

lemma ext_refl: "ext T T"
  by (simp add: ext_def)

lemma ext_trans: "ext T T1 \<Longrightarrow> ext T1 T2 \<Longrightarrow> ext T T2"
  unfolding ext_def using ok_ext[unfolded ext_def] by metis

lemma step_refl: "step rules D \<sigma> \<sigma>"
  by (simp add: step_def ext_refl)

lemma step_trans:
  assumes "step rules D \<sigma> \<sigma>1" "step rules D \<sigma>1 \<sigma>2"
  shows "step rules D \<sigma> \<sigma>2"
proof -
  let ?T = "parser_table \<sigma>" and ?T1 = "parser_table \<sigma>1" and ?T2 = "parser_table \<sigma>2"
  from assms have e: "ext ?T ?T1" "ext ?T1 ?T2" by (simp_all add: step_def)
  then have "ext ?T ?T2" by (rule ext_trans)
  moreover have "x \<in> D \<and> good rules ?T2 x" if "?T2 x \<noteq> ?T x" for x
  proof (cases "?T2 x = ?T1 x")
    case True
    with that have "?T1 x \<noteq> ?T x" by simp
    with assms(1) have "x \<in> D" "good rules ?T1 x" by (simp_all add: step_def)
    with e(2) show ?thesis by (blast intro: good_ext)
  next
    case False
    with assms(2) show ?thesis by (simp add: step_def)
  qed
  moreover have "clean \<sigma> \<longrightarrow> clean \<sigma>2" using assms by (simp add: step_def)
  ultimately show ?thesis by (simp add: step_def)
qed

lemma settled_step:
  assumes "settled rules D (parser_table \<sigma>)" "step rules D \<sigma> \<sigma>'"
  shows "settled rules D (parser_table \<sigma>')"
  unfolding settled_def
proof
  fix m assume m: "m \<in> D"
  show "parser_table \<sigma>' m = None \<or> good rules (parser_table \<sigma>') m"
  proof (cases "parser_table \<sigma>' m = parser_table \<sigma> m")
    case True
    from assms(1) m have "parser_table \<sigma> m = None \<or> good rules (parser_table \<sigma>) m"
      by (simp add: settled_def)
    with True assms(2) show ?thesis by (auto simp: step_def intro: good_ext)
  next
    case False
    with assms(2) show ?thesis by (simp add: step_def)
  qed
qed

lemma settled_mono: "D \<subseteq> D' \<Longrightarrow> settled rules D' T \<Longrightarrow> settled rules D T"
  by (auto simp: settled_def)

lemma res_ok_step: "res_ok D (parser_table \<sigma>) p m \<Longrightarrow> step rules D \<sigma> \<sigma>' \<Longrightarrow> res_ok D (parser_table \<sigma>') p m"
  by (auto simp: res_ok_def step_def intro: ok_ext)

lemma rel_trans: "step rules D \<sigma> \<sigma>1 \<Longrightarrow> rel rules D \<sigma>1 r1 r2 \<Longrightarrow> rel rules D \<sigma> r1 r2"
  by (auto simp: rel_def split: sum.splits intro: step_trans)

lemma res_ok_mono: "D \<subseteq> D' \<Longrightarrow> res_ok D T p m \<Longrightarrow> res_ok D' T p m"
  unfolding res_ok_def by blast

lemma step_mono: "D \<subseteq> D' \<Longrightarrow> step rules D \<sigma> \<sigma>' \<Longrightarrow> step rules D' \<sigma> \<sigma>'"
  unfolding step_def by blast

lemma rel_mono: "D \<subseteq> D' \<Longrightarrow> rel rules D \<sigma> r1 r2 \<Longrightarrow> rel rules D' \<sigma> r1 r2"
  unfolding rel_def using res_ok_mono step_mono by (cases r1) (simp, fastforce)

lemma concat_parts_agree:
  assumes "\<forall>c\<in>set parts. agrees rules D gp1 gp2 c"
    and "settled rules D (parser_table \<sigma>)"
    and "res_ok D (parser_table \<sigma>) parser m"
    and "concat_parts_p1 gp1 m parts = Some r1"
  shows "\<exists>r2. concat_parts_p2 gp2 parser parts \<sigma> = Some r2 \<and> rel rules D \<sigma> r1 r2"
  using assms
proof (induction parts arbitrary: parser m \<sigma>)
  case Nil
  then show ?case by (auto simp: rel_def step_refl)
next
  case (Cons c parts)
  from Cons.prems(4) obtain x where x: "gp1 c = Some x" by (auto split: option.splits)
  from Cons.prems(1) have "agrees rules D gp1 gp2 c" by simp
  with Cons.prems(2) x obtain y where y: "gp2 c \<sigma> = Some y" and xy: "rel rules D \<sigma> x y"
    unfolding agrees_def by blast
  show ?case
  proof (cases x)
    case (Inl e)
    with xy have "y = Inl e" by (simp add: rel_def)
    with Inl x y Cons.prems(4) show ?thesis by (auto simp: rel_def)
  next
    case (Inr q1)
    with xy obtain q2 \<sigma>1 where y2: "y = Inr (q2, \<sigma>1)"
      and rq: "res_ok D (parser_table \<sigma>1) q2 q1" and st: "step rules D \<sigma> \<sigma>1"
      by (auto simp: rel_def)
    from Cons.prems(3) st have "res_ok D (parser_table \<sigma>1) parser m" by (rule res_ok_step)
    with rq have r': "res_ok D (parser_table \<sigma>1) (Concat parser q2) (concat_p m q1)"
      by (auto simp: res_ok_def)
    from Cons.prems(2) st have s': "settled rules D (parser_table \<sigma>1)" by (rule settled_step)
    from Cons.prems(4) x Inr have c1: "concat_parts_p1 gp1 (concat_p m q1) parts = Some r1" by simp
    from Cons.prems(1) have a': "\<forall>c\<in>set parts. agrees rules D gp1 gp2 c" by simp
    from Cons.IH[OF a' s' r' c1] obtain r2 where
      "concat_parts_p2 gp2 (Concat parser q2) parts \<sigma>1 = Some r2" "rel rules D \<sigma>1 r1 r2" by blast
    with y y2 st show ?thesis by (auto intro: rel_trans)
  qed
qed

lemma make_concat_agree:
  assumes "\<forall>c\<in>set parts. agrees rules D gp1 gp2 c"
    and "settled rules D (parser_table \<sigma>)"
    and "make_concat_p1 gp1 parts = Some r1"
  shows "\<exists>r2. make_concat_p2 gp2 parts \<sigma> = Some r2 \<and> rel rules D \<sigma> r1 r2"
proof (cases parts)
  case Nil
  with assms(3) show ?thesis by (auto simp: make_concat_p1_def make_concat_p2_def rel_def)
next
  case (Cons c rest)
  with assms(3) obtain x where x: "gp1 c = Some x"
    by (auto simp: make_concat_p1_def split: option.splits)
  from assms(1) Cons have "agrees rules D gp1 gp2 c" by simp
  with assms(2) x obtain y where y: "gp2 c \<sigma> = Some y" and xy: "rel rules D \<sigma> x y"
    unfolding agrees_def by blast
  show ?thesis
  proof (cases x)
    case (Inl e)
    with xy have "y = Inl e" by (simp add: rel_def)
    with Inl x y assms(3) Cons show ?thesis
      by (auto simp: rel_def make_concat_p1_def make_concat_p2_def)
  next
    case (Inr q1)
    with xy obtain q2 \<sigma>1 where y2: "y = Inr (q2, \<sigma>1)"
      and rq: "res_ok D (parser_table \<sigma>1) q2 q1" and st: "step rules D \<sigma> \<sigma>1"
      by (auto simp: rel_def)
    from assms(2) st have s': "settled rules D (parser_table \<sigma>1)" by (rule settled_step)
    from assms(3) x Inr Cons have c1: "concat_parts_p1 gp1 q1 rest = Some r1"
      by (simp add: make_concat_p1_def)
    from assms(1) Cons have a': "\<forall>c\<in>set rest. agrees rules D gp1 gp2 c" by simp
    from concat_parts_agree[OF a' s' rq c1] obtain r2 where
      "concat_parts_p2 gp2 q2 rest \<sigma>1 = Some r2" "rel rules D \<sigma>1 r1 r2" by blast
    with y y2 st Cons show ?thesis by (auto simp: make_concat_p2_def intro: rel_trans)
  qed
qed

lemma alt_rules_agree:
  assumes "\<forall>c\<in>set (concat rest). agrees rules D gp1 gp2 c"
    and "settled rules D (parser_table \<sigma>)"
    and "res_ok D (parser_table \<sigma>) parser m"
    and "alt_rules_p1 gp1 m rest = Some r1"
  shows "\<exists>r2. alt_rules_p2 gp2 parser rest \<sigma> = Some r2 \<and> rel rules D \<sigma> r1 r2"
  using assms
proof (induction rest arbitrary: parser m \<sigma>)
  case Nil
  then show ?case by (auto simp: rel_def step_refl)
next
  case (Cons a rest)
  from Cons.prems(4) obtain x where x: "make_concat_p1 gp1 a = Some x"
    by (auto split: option.splits)
  from Cons.prems(1) have aa: "\<forall>c\<in>set a. agrees rules D gp1 gp2 c" by simp
  from make_concat_agree[OF aa Cons.prems(2) x] obtain y where
    y: "make_concat_p2 gp2 a \<sigma> = Some y" and xy: "rel rules D \<sigma> x y" by blast
  show ?case
  proof (cases x)
    case (Inl e)
    with xy have "y = Inl e" by (simp add: rel_def)
    with Inl x y Cons.prems(4) show ?thesis by (auto simp: rel_def)
  next
    case (Inr q1)
    with xy obtain q2 \<sigma>1 where y2: "y = Inr (q2, \<sigma>1)"
      and rq: "res_ok D (parser_table \<sigma>1) q2 q1" and st: "step rules D \<sigma> \<sigma>1"
      by (auto simp: rel_def)
    from Cons.prems(3) st have "res_ok D (parser_table \<sigma>1) parser m" by (rule res_ok_step)
    with rq have r': "res_ok D (parser_table \<sigma>1) (Alt parser q2) (alt m q1)"
      by (auto simp: res_ok_def)
    from Cons.prems(2) st have s': "settled rules D (parser_table \<sigma>1)" by (rule settled_step)
    from Cons.prems(4) x Inr have c1: "alt_rules_p1 gp1 (alt m q1) rest = Some r1" by simp
    from Cons.prems(1) have a': "\<forall>c\<in>set (concat rest). agrees rules D gp1 gp2 c" by simp
    from Cons.IH[OF a' s' r' c1] obtain r2 where
      "alt_rules_p2 gp2 (Alt parser q2) rest \<sigma>1 = Some r2" "rel rules D \<sigma>1 r1 r2" by blast
    with y y2 st show ?thesis by (auto intro: rel_trans)
  qed
qed

lemma translate_agree:
  assumes "\<forall>c. (n, c) \<in> refs rules \<longrightarrow> agrees rules D gp1 gp2 c"
    and "settled rules D (parser_table \<sigma>)"
    and "translate_p1 gp1 rules n = Some r1"
  shows "\<exists>r2. translate_p2 gp2 rules n \<sigma> = Some r2 \<and> rel rules D \<sigma> r1 r2"
proof (cases "rules n")
  case None
  with assms(3) show ?thesis by (auto simp: translate_p1_def translate_p2_def rel_def)
next
  case (Some r)
  show ?thesis
  proof (cases r)
    case (Terminal t)
    with Some assms(3) show ?thesis
      by (auto simp: translate_p1_def translate_p2_def rel_def res_ok_def step_refl)
  next
    case (Alternatives rule)
    with Some have ag: "\<forall>c\<in>set (concat rule). agrees rules D gp1 gp2 c"
      using assms(1) by (auto simp: refs_def)
    show ?thesis
    proof (cases rule)
      case Nil
      with Some Alternatives assms(3) show ?thesis
        by (auto simp: translate_p1_def translate_p2_def rel_def)
    next
      case (Cons a rest)
      with Some Alternatives assms(3) obtain x where x: "make_concat_p1 gp1 a = Some x"
        by (auto simp: translate_p1_def split: option.splits)
      from ag Cons have aa: "\<forall>c\<in>set a. agrees rules D gp1 gp2 c" by simp
      from make_concat_agree[OF aa assms(2) x] obtain y where
        y: "make_concat_p2 gp2 a \<sigma> = Some y" and xy: "rel rules D \<sigma> x y" by blast
      show ?thesis
      proof (cases x)
        case (Inl e)
        with xy have "y = Inl e" by (simp add: rel_def)
        with Inl x y assms(3) Some Alternatives Cons show ?thesis
          by (auto simp: rel_def translate_p1_def translate_p2_def)
      next
        case (Inr q1)
        with xy obtain q2 \<sigma>1 where y2: "y = Inr (q2, \<sigma>1)"
          and rq: "res_ok D (parser_table \<sigma>1) q2 q1" and st: "step rules D \<sigma> \<sigma>1"
          by (auto simp: rel_def)
        from assms(2) st have s': "settled rules D (parser_table \<sigma>1)" by (rule settled_step)
        from assms(3) x Inr Some Alternatives Cons have c1: "alt_rules_p1 gp1 q1 rest = Some r1"
          by (simp add: translate_p1_def)
        from ag Cons have a': "\<forall>c\<in>set (concat rest). agrees rules D gp1 gp2 c" by simp
        from alt_rules_agree[OF a' s' rq c1] obtain r2 where
          "alt_rules_p2 gp2 q2 rest \<sigma>1 = Some r2" "rel rules D \<sigma>1 r1 r2" by blast
        with y y2 st Some Alternatives Cons show ?thesis
          by (auto simp: translate_p2_def intro: rel_trans)
      qed
    qed
  qed
qed

lemma child_reach:
  "(n, c) \<in> refs rules \<Longrightarrow> (refs rules)\<^sup>* `` {c} \<subseteq> (refs rules)\<^sup>+ `` {n}"
  by (auto intro: rtrancl_into_trancl2)

lemma not_self_reach: "acyclic (refs rules) \<Longrightarrow> n \<notin> (refs rules)\<^sup>+ `` {n}"
  by (auto simp: acyclic_def)

lemma trancl_sub_rtrancl: "(refs rules)\<^sup>+ `` {n} \<subseteq> (refs rules)\<^sup>* `` {n}"
  by auto

lemma compile_agree:
  assumes ac: "acyclic (refs rules)"
  shows "get_parser_p1 k rules n = Some r1 \<Longrightarrow>
         settled rules ((refs rules)\<^sup>* `` {n}) (parser_table \<sigma>) \<Longrightarrow>
         \<exists>r2. get_parser_part2 k rules n \<sigma> = Some r2 \<and> rel rules ((refs rules)\<^sup>* `` {n}) \<sigma> r1 r2"
proof (induction k arbitrary: n r1 \<sigma>)
  case 0
  then show ?case by simp
next
  case (Suc k)
  let ?R = "refs rules"
  let ?T = "parser_table \<sigma>"
  let ?D = "?R\<^sup>+ `` {n}"
  let ?E = "?R\<^sup>* `` {n}"
  from Suc.prems(1) have p1: "translate_p1 (get_parser_p1 k rules) rules n = Some r1" by simp
  show ?case
  proof (cases "?T n")
    case (Some p)
    have "n \<in> ?E" by simp
    with Suc.prems(2) have "?T n = None \<or> good rules ?T n" unfolding settled_def by blast
    with Some have "good rules ?T n" by simp
    with Some obtain k' where okp: "ok ?T p" and wp: "wids p \<subseteq> ?D"
      and k': "get_parser_p1 k' rules n = Some (Inr (den p))" by (auto simp: good_def)
    have "get_parser_p1 (max (Suc k) k') rules n = Some r1"
      using Suc.prems(1) by (rule get_parser_p1_mono[rotated]) simp
    moreover have "get_parser_p1 (max (Suc k) k') rules n = Some (Inr (den p))"
      using k' by (rule get_parser_p1_mono[rotated]) simp
    ultimately have r1: "r1 = Inr (den p)" by simp
    have "res_ok ?E ?T p (den p)" using okp wp by (auto simp: res_ok_def)
    then have "rel rules ?E \<sigma> r1 (Inr (p, \<sigma>))" by (auto simp: rel_def r1 step_refl)
    moreover have "get_parser_part2 (Suc k) rules n \<sigma> = Some (Inr (p, \<sigma>))"
      using Some by (simp add: get_parser_def)
    ultimately show ?thesis by blast
  next
    case None
    let ?\<sigma>1 = "install n (Deferred n) \<sigma>"
    let ?T1 = "parser_table ?\<sigma>1"
    have nD: "n \<notin> ?D" using ac by (rule not_self_reach)
    have e01: "ext ?T ?T1" using None by (auto simp: ext_def install_def)
    have s1: "settled rules ?D ?T1"
      unfolding settled_def
    proof
      fix m assume m: "m \<in> ?D"
      then have "m \<in> ?E" by auto
      with Suc.prems(2) have "?T m = None \<or> good rules ?T m" by (simp add: settled_def)
      moreover from m nD have "?T1 m = ?T m" by (auto simp: install_def)
      ultimately show "?T1 m = None \<or> good rules ?T1 m" using e01 by (auto intro: good_ext)
    qed
    have ag: "\<forall>c. (n, c) \<in> ?R \<longrightarrow> agrees rules ?D (get_parser_p1 k rules) (get_parser_part2 k rules) c"
      unfolding agrees_def
    proof (intro allI impI)
      fix c and \<sigma>' :: state and x
      assume c: "(n, c) \<in> ?R" and st: "settled rules ?D (parser_table \<sigma>')"
        and x: "get_parser_p1 k rules c = Some x"
      from c have sub: "?R\<^sup>* `` {c} \<subseteq> ?D" by (rule child_reach)
      from sub st have "settled rules (?R\<^sup>* `` {c}) (parser_table \<sigma>')" by (rule settled_mono)
      from Suc.IH[OF x this] obtain y where "get_parser_part2 k rules c \<sigma>' = Some y"
        and "rel rules (?R\<^sup>* `` {c}) \<sigma>' x y" by blast
      with sub show "\<exists>r2. get_parser_part2 k rules c \<sigma>' = Some r2 \<and> rel rules ?D \<sigma>' x r2"
        by (blast intro: rel_mono)
    qed
    from translate_agree[OF ag s1 p1] obtain y where
      y: "translate_p2 (get_parser_part2 k rules) rules n ?\<sigma>1 = Some y"
      and xy: "rel rules ?D ?\<sigma>1 r1 y" by blast
    show ?thesis
    proof (cases r1)
      case (Inl e)
      with xy have "y = Inl e" by (simp add: rel_def)
      with y None have "get_parser_part2 (Suc k) rules n \<sigma> = Some (Inl e)"
        by (simp add: get_parser_def)
      with Inl show ?thesis by (auto simp: rel_def)
    next
      case (Inr m)
      with xy obtain q \<sigma>2 where y2: "y = Inr (q, \<sigma>2)"
        and rq: "res_ok ?D (parser_table \<sigma>2) q m" and st: "step rules ?D ?\<sigma>1 \<sigma>2"
        by (auto simp: rel_def)
      let ?T2 = "parser_table \<sigma>2"
      let ?\<sigma>3 = "fresh_tables n (install n q \<sigma>2)"
      let ?T3 = "parser_table ?\<sigma>3"
      have g: "get_parser_part2 (Suc k) rules n \<sigma> = Some (Inr (Wrapper n q, ?\<sigma>3))"
        using y y2 None by (simp add: get_parser_def)
      have T3: "?T3 = ?T2(n \<mapsto> q)" by (simp add: fresh_tables_def install_def)
      have T1n: "?T1 n = Some (Deferred n)" by (simp add: install_def)
      have T2n: "?T2 n = Some (Deferred n)"
      proof (rule ccontr)
        assume "?T2 n \<noteq> Some (Deferred n)"
        with T1n have "?T2 n \<noteq> ?T1 n" by simp
        with st have "n \<in> ?D" by (simp add: step_def)
        with nD show False by simp
      qed
      have e12: "ext ?T1 ?T2" using st by (simp add: step_def)
      have e23: "ext ?T2 ?T3"
        unfolding ext_def
      proof (intro allI impI)
        fix m' q'
        assume a: "?T2 m' = Some q'" and o: "ok ?T2 q'"
        have "m' \<noteq> n"
        proof
          assume "m' = n"
          with a T2n have "q' = Deferred n" by simp
          with o show False by simp
        qed
        with a show "?T3 m' = Some q'" by (simp add: T3)
      qed
      have e03: "ext ?T ?T3" using e01 e12 e23 by (blast intro: ext_trans)
      from rq have dq: "den q = m" and okq: "ok ?T2 q" and wq: "wids q \<subseteq> ?D"
        by (simp_all add: res_ok_def)
      have okq3: "ok ?T3 q" using okq e23 by (rule ok_ext)
      have "get_parser_p1 (Suc k) rules n = Some (Inr (den q))"
        using Suc.prems(1) Inr dq by simp
      then have "\<exists>k'. get_parser_p1 k' rules n = Some (Inr (den q))" by (rule exI)
      then have gn: "good rules ?T3 n"
        unfolding good_def
        using okq3 wq by (simp add: T3)
      have nq: "n \<notin> wids q" using wq nD by blast
      have r3: "res_ok ?E ?T3 (Wrapper n q) m"
        using dq okq3 nq wq by (auto simp: res_ok_def T3)
      have ch: "x \<in> ?E \<and> good rules ?T3 x" if "?T3 x \<noteq> ?T x" for x
      proof (cases "x = n")
        case True
        with gn show ?thesis by simp
      next
        case False
        then have "?T3 x = ?T2 x" "?T1 x = ?T x"
          by (simp_all add: fresh_tables_def install_def)
        with that have "?T2 x \<noteq> ?T1 x" by simp
        with st have "x \<in> ?D" "good rules ?T2 x" by (simp_all add: step_def)
        with e23 show ?thesis by (auto intro: good_ext)
      qed
      have cl: "clean \<sigma> \<longrightarrow> clean ?\<sigma>3"
      proof
        assume "clean \<sigma>"
        then have "clean ?\<sigma>1" by (simp add: clean_def install_def)
        with st have "clean \<sigma>2" by (simp add: step_def)
        then show "clean ?\<sigma>3" by (auto simp: clean_def fresh_tables_def install_def)
      qed
      have "step rules ?E \<sigma> ?\<sigma>3"
        unfolding step_def using e03 ch cl by blast
      with r3 g Inr show ?thesis by (auto simp: rel_def)
    qed
  qed
qed

lemma finite_refs:
  assumes "finite (dom rules)"
  shows "finite (refs rules)"
proof -
  have "refs rules \<subseteq> (\<Union>n\<in>dom rules. {n} \<times> (case rules n of Some (Alternatives rule) \<Rightarrow> set (concat rule) | _ \<Rightarrow> {}))"
    by (auto simp: refs_def)
  moreover have "finite (\<Union>n\<in>dom rules. {n} \<times> (case rules n of Some (Alternatives rule) \<Rightarrow> set (concat rule) | _ \<Rightarrow> {}))"
    using assms by (auto split: option.splits rule.splits)
  ultimately show ?thesis by (rule finite_subset)
qed

lemma concat_parts_total:
  "\<forall>c\<in>set parts. \<exists>r. gp c = Some r \<and> (V \<longrightarrow> (\<exists>m. r = Inr m)) \<Longrightarrow>
   \<exists>r. concat_parts_p1 gp parser parts = Some r \<and> (V \<longrightarrow> (\<exists>m. r = Inr m))"
proof (induction parts arbitrary: parser)
  case Nil
  then show ?case by simp
next
  case (Cons c parts)
  then obtain r where r: "gp c = Some r" "V \<longrightarrow> (\<exists>m. r = Inr m)" by auto
  show ?case
  proof (cases r)
    case (Inl e)
    with r show ?thesis by auto
  next
    case (Inr q)
    from Cons.prems have "\<forall>c\<in>set parts. \<exists>r. gp c = Some r \<and> (V \<longrightarrow> (\<exists>m. r = Inr m))" by simp
    from Cons.IH[OF this, of "concat_p parser q"] r Inr show ?thesis by simp
  qed
qed

lemma make_concat_total:
  assumes "\<forall>c\<in>set parts. \<exists>r. gp c = Some r \<and> (V \<longrightarrow> (\<exists>m. r = Inr m))"
  shows "\<exists>r. make_concat_p1 gp parts = Some r \<and> (V \<and> parts \<noteq> [] \<longrightarrow> (\<exists>m. r = Inr m))"
proof (cases parts)
  case Nil
  then show ?thesis by (simp add: make_concat_p1_def)
next
  case (Cons c rest)
  with assms obtain r where r: "gp c = Some r" "V \<longrightarrow> (\<exists>m. r = Inr m)" by auto
  show ?thesis
  proof (cases r)
    case (Inl e)
    with r Cons show ?thesis by (auto simp: make_concat_p1_def)
  next
    case (Inr q)
    from assms Cons have "\<forall>c\<in>set rest. \<exists>r. gp c = Some r \<and> (V \<longrightarrow> (\<exists>m. r = Inr m))" by simp
    from concat_parts_total[OF this, of q] r Inr Cons show ?thesis
      by (simp add: make_concat_p1_def)
  qed
qed

lemma alt_rules_total:
  "\<forall>c\<in>set (concat rest). \<exists>r. gp c = Some r \<and> (V \<longrightarrow> (\<exists>m. r = Inr m)) \<Longrightarrow>
   \<exists>r. alt_rules_p1 gp parser rest = Some r \<and> (V \<and> [] \<notin> set rest \<longrightarrow> (\<exists>m. r = Inr m))"
proof (induction rest arbitrary: parser)
  case Nil
  then show ?case by simp
next
  case (Cons a rest)
  then have "\<forall>c\<in>set a. \<exists>r. gp c = Some r \<and> (V \<longrightarrow> (\<exists>m. r = Inr m))" by simp
  from make_concat_total[OF this] obtain r where
    r: "make_concat_p1 gp a = Some r" "V \<and> a \<noteq> [] \<longrightarrow> (\<exists>m. r = Inr m)" by blast
  show ?case
  proof (cases r)
    case (Inl e)
    with r show ?thesis by auto
  next
    case (Inr q)
    from Cons.prems have "\<forall>c\<in>set (concat rest). \<exists>r. gp c = Some r \<and> (V \<longrightarrow> (\<exists>m. r = Inr m))"
      by simp
    from Cons.IH[OF this, of "alt parser q"] r Inr show ?thesis by auto
  qed
qed

lemma translate_total:
  assumes "\<forall>c. (n, c) \<in> refs rules \<longrightarrow> (\<exists>r. gp c = Some r \<and> (V \<longrightarrow> (\<exists>m. r = Inr m)))"
  shows "\<exists>r. translate_p1 gp rules n = Some r \<and>
           (V \<and> nonempty_rules rules \<and> n \<in> dom rules \<longrightarrow> (\<exists>m. r = Inr m))"
proof (cases "rules n")
  case None
  then show ?thesis by (auto simp: translate_p1_def)
next
  case (Some rl)
  show ?thesis
  proof (cases rl)
    case (Terminal t)
    with Some show ?thesis by (simp add: translate_p1_def)
  next
    case (Alternatives rule)
    with Some assms have ch: "\<forall>c\<in>set (concat rule). \<exists>r. gp c = Some r \<and> (V \<longrightarrow> (\<exists>m. r = Inr m))"
      by (auto simp: refs_def)
    show ?thesis
    proof (cases rule)
      case Nil
      with Some Alternatives show ?thesis by (auto simp: translate_p1_def nonempty_rules_def)
    next
      case (Cons a rest)
      have ne: "a \<noteq> [] \<and> [] \<notin> set rest" if "nonempty_rules rules"
      proof -
        from that Some Alternatives Cons have "[] \<notin> set (a # rest)"
          unfolding nonempty_rules_def by blast
        then show ?thesis by auto
      qed
      from ch Cons have "\<forall>c\<in>set a. \<exists>r. gp c = Some r \<and> (V \<longrightarrow> (\<exists>m. r = Inr m))" by simp
      from make_concat_total[OF this] obtain r where
        r: "make_concat_p1 gp a = Some r" "V \<and> a \<noteq> [] \<longrightarrow> (\<exists>m. r = Inr m)" by blast
      show ?thesis
      proof (cases r)
        case (Inl e)
        with r ne Some Alternatives Cons show ?thesis by (auto simp: translate_p1_def)
      next
        case (Inr q)
        from ch Cons have "\<forall>c\<in>set (concat rest). \<exists>r. gp c = Some r \<and> (V \<longrightarrow> (\<exists>m. r = Inr m))"
          by simp
        from alt_rules_total[OF this, of q] r Inr ne Some Alternatives Cons show ?thesis
          by (auto simp: translate_p1_def)
      qed
    qed
  qed
qed

lemma common_fuel:
  assumes "finite C"
    and "\<forall>c\<in>C. \<exists>k r. get_parser_p1 k rules c = Some r \<and> P c r"
  shows "\<exists>K. \<forall>c\<in>C. \<exists>r. get_parser_p1 K rules c = Some r \<and> P c r"
  using assms
proof (induction C)
  case empty
  then show ?case by simp
next
  case (insert x F)
  then obtain K where K: "\<forall>c\<in>F. \<exists>r. get_parser_p1 K rules c = Some r \<and> P c r" by auto
  from insert.prems obtain k r where k: "get_parser_p1 k rules x = Some r" "P x r" by auto
  have "\<forall>c\<in>insert x F. \<exists>r. get_parser_p1 (max K k) rules c = Some r \<and> P c r"
  proof
    fix c assume "c \<in> insert x F"
    then consider "c = x" | "c \<in> F" by auto
    then show "\<exists>r. get_parser_p1 (max K k) rules c = Some r \<and> P c r"
    proof cases
      case 1
      have "get_parser_p1 (max K k) rules x = Some r"
        using k(1) by (rule get_parser_p1_mono[rotated]) simp
      with 1 k(2) show ?thesis by auto
    next
      case 2
      with K obtain r' where r': "get_parser_p1 K rules c = Some r'" "P c r'" by auto
      have "get_parser_p1 (max K k) rules c = Some r'"
        using r'(1) by (rule get_parser_p1_mono[rotated]) simp
      with r'(2) show ?thesis by auto
    qed
  qed
  then show ?case by blast
qed

lemma finite_children: "finite {c. (n, c) \<in> refs rules}"
proof -
  have "{c. (n, c) \<in> refs rules} \<subseteq> (case rules n of Some (Alternatives rule) \<Rightarrow> set (concat rule) | _ \<Rightarrow> {})"
    by (auto simp: refs_def)
  moreover have "finite (case rules n of Some (Alternatives rule) \<Rightarrow> set (concat rule) | _ \<Rightarrow> {})"
    by (auto split: option.splits rule.splits)
  ultimately show ?thesis by (rule finite_subset)
qed

lemma get_parser_p1_total:
  assumes f: "finite (dom rules)" and a: "acyclic (refs rules)"
  shows "\<exists>k r. get_parser_p1 k rules n = Some r \<and>
           (closed_rules rules \<and> nonempty_rules rules \<and> n \<in> dom rules \<longrightarrow> (\<exists>m. r = Inr m))"
proof -
  let ?V = "closed_rules rules \<and> nonempty_rules rules"
  have "wf ((refs rules)\<inverse>)"
    using finite_refs[OF f] a by (rule finite_acyclic_wf_converse)
  then show ?thesis
  proof (induction n rule: wf_induct_rule)
    case (less n)
    have "\<forall>c\<in>{c. (n, c) \<in> refs rules}. \<exists>k r. get_parser_p1 k rules c = Some r \<and>
            (?V \<and> c \<in> dom rules \<longrightarrow> (\<exists>m. r = Inr m))"
      using less by auto
    from common_fuel[OF finite_children this] obtain K where
      K: "\<forall>c\<in>{c. (n, c) \<in> refs rules}. \<exists>r. get_parser_p1 K rules c = Some r \<and>
            (?V \<and> c \<in> dom rules \<longrightarrow> (\<exists>m. r = Inr m))" by blast
    have "\<forall>c. (n, c) \<in> refs rules \<longrightarrow>
            (\<exists>r. get_parser_p1 K rules c = Some r \<and> (?V \<longrightarrow> (\<exists>m. r = Inr m)))"
    proof (intro allI impI)
      fix c assume c: "(n, c) \<in> refs rules"
      with K obtain r where r: "get_parser_p1 K rules c = Some r"
        "?V \<and> c \<in> dom rules \<longrightarrow> (\<exists>m. r = Inr m)" by auto
      from c have "closed_rules rules \<Longrightarrow> c \<in> dom rules" by (auto simp: closed_rules_def)
      with r show "\<exists>r. get_parser_p1 K rules c = Some r \<and> (?V \<longrightarrow> (\<exists>m. r = Inr m))" by auto
    qed
    from translate_total[OF this] obtain r where
      "translate_p1 (get_parser_p1 K rules) rules n = Some r"
      "?V \<and> nonempty_rules rules \<and> n \<in> dom rules \<longrightarrow> (\<exists>m. r = Inr m)" by blast
    then have "get_parser_p1 (Suc K) rules n = Some r \<and>
        (closed_rules rules \<and> nonempty_rules rules \<and> n \<in> dom rules \<longrightarrow> (\<exists>m. r = Inr m))"
      by simp
    then show ?case by blast
  qed
qed

lemma settled_init: "settled rules D (parser_table init)"
  by (simp add: settled_def init_def)

lemma clean_init: "clean init"
  by (simp add: clean_def init_def)

lemma clean_memo_ok: "clean \<sigma> \<Longrightarrow> memo_ok {} \<sigma>"
  by (simp add: clean_def memo_ok_def)

lemma translations_agree:
  assumes f: "finite (dom rules)" and a: "acyclic (refs rules)" and e: "enumerates order"
  shows "\<exists>fuel.
     ((\<exists>e. get_parser_p1 fuel rules n = Some (Inl e) \<and>
           get_parser_part2 fuel rules n init = Some (Inl e)) \<or>
      (\<exists>m parser \<sigma>. get_parser_p1 fuel rules n = Some (Inr m) \<and>
           get_parser_part2 fuel rules n init = Some (Inr (parser, \<sigma>)) \<and>
           ok (parser_table \<sigma>) parser \<and> memo_ok {} \<sigma> \<and> den parser = m)) \<and>
     (closed_rules rules \<and> nonempty_rules rules \<and> n \<in> dom rules \<longrightarrow>
        (\<exists>m. get_parser_p1 fuel rules n = Some (Inr m)))"
proof -
  from get_parser_p1_total[OF f a, of n] obtain k r1 where
    p1: "get_parser_p1 k rules n = Some r1"
    and w: "closed_rules rules \<and> nonempty_rules rules \<and> n \<in> dom rules \<longrightarrow> (\<exists>m. r1 = Inr m)"
    by blast
  from compile_agree[OF a p1 settled_init] obtain r2 where
    p2: "get_parser_part2 k rules n init = Some r2"
    and r: "rel rules ((refs rules)\<^sup>* `` {n}) init r1 r2" by blast
  show ?thesis
  proof (cases r1)
    case (Inl e)
    with r have "r2 = Inl e" by (simp add: rel_def)
    with Inl p1 p2 w show ?thesis by auto
  next
    case (Inr m)
    with r obtain p \<sigma> where r2: "r2 = Inr (p, \<sigma>)"
      and ro: "res_ok ((refs rules)\<^sup>* `` {n}) (parser_table \<sigma>) p m"
      and st: "step rules ((refs rules)\<^sup>* `` {n}) init \<sigma>" by (auto simp: rel_def)
    from st clean_init have "clean \<sigma>" by (simp add: step_def)
    then have "memo_ok {} \<sigma>" by (rule clean_memo_ok)
    with ro r2 Inr p1 p2 have
      "\<exists>m parser \<sigma>. get_parser_p1 k rules n = Some (Inr m) \<and>
           get_parser_part2 k rules n init = Some (Inr (parser, \<sigma>)) \<and>
           ok (parser_table \<sigma>) parser \<and> memo_ok {} \<sigma> \<and> den parser = m"
      by (auto simp: res_ok_def)
    moreover from Inr p1 have "\<exists>m. get_parser_p1 k rules n = Some (Inr m)" by simp
    ultimately show ?thesis by blast
  qed
qed

lemma count_p2_mono:
  "below p p' \<Longrightarrow> count_p2 p ls c \<sigma> = Some r \<Longrightarrow> count_p2 p' ls c \<sigma> = Some r"
proof (induction ls arbitrary: c \<sigma>)
  case Nil
  then show ?case by simp
next
  case (Cons s ls)
  from Cons.prems(2) obtain x where x: "p s \<sigma> = Some x" by (auto split: option.splits)
  then have x': "p' s \<sigma> = Some x" using Cons.prems(1) by (rule belowD[rotated])
  show ?case
  proof (cases x)
    case (Inl e)
    with Cons.prems(2) show ?thesis by (auto simp: x x')
  next
    case (Inr b)
    obtain m \<sigma>' where "b = (m, \<sigma>')" by (cases b)
    with Inr Cons.prems(2) Cons.IH[OF Cons.prems(1)] show ?thesis by (auto simp: x x')
  qed
qed

lemma count_agree:
  assumes e: "enumerates order"
  shows "ok (parser_table \<sigma>) p \<Longrightarrow> memo_ok {} \<sigma> \<Longrightarrow>
         \<exists>k \<sigma>'. count_p2 (run order k p) ls c \<sigma> = Some (Inr (count_p1 (den p) ls c, \<sigma>'))"
proof (induction ls arbitrary: c \<sigma>)
  case Nil
  then show ?case by simp
next
  case (Cons s ls)
  from run_ok[OF e Cons.prems(1,2), of s] obtain k1 \<sigma>1 where
    r: "run order k1 p s \<sigma> = Some (Inr (Matches (den p s), \<sigma>1))"
    and m1: "memo_ok {} \<sigma>1" and t1: "parser_table \<sigma>1 = parser_table \<sigma>" by auto
  let ?c = "if [] \<in> den p s then c + 1 else c"
  from Cons.prems(1) t1 have "ok (parser_table \<sigma>1) p" by simp
  from Cons.IH[OF this m1, of ?c] obtain k2 \<sigma>2 where
    c2: "count_p2 (run order k2 p) ls ?c \<sigma>1 = Some (Inr (count_p1 (den p) ls ?c, \<sigma>2))" by blast
  let ?k = "max k1 k2"
  have r': "run order ?k p s \<sigma> = Some (Inr (Matches (den p s), \<sigma>1))"
    using r by (rule run_mono[rotated]) simp
  have c': "count_p2 (run order ?k p) ls ?c \<sigma>1 = Some (Inr (count_p1 (den p) ls ?c, \<sigma>2))"
    using c2 by (rule count_p2_mono[rotated]) (rule run_below, simp)
  have "count_p2 (run order ?k p) (s # ls) c \<sigma> = Some (Inr (count_p1 (den p) (s # ls) c, \<sigma>2))"
    using r' c' by simp
  then show ?case by blast
qed

text \<open>
  C5. For every rule table in which no rule references itself through any chain of
  references and every referenced rule is present, and every rule \<open>n\<close> of it, both
  translations return, and on every input string the part 2 matcher returns the set that
  the part 1 matcher returns; it does so also on every string of a list of inputs matched
  one after the other, so the two counting loops give the same count. The table is a
  dict (finite) built from the rule lines (no empty option), and sets are iterated in any
  order.
\<close>

theorem part2_agrees_with_part1:
  assumes "finite (dom rules)"
    and "acyclic (refs rules)"
    and "closed_rules rules"
    and "nonempty_rules rules"
    and "n \<in> dom rules"
    and "enumerates order"
  shows "\<exists>fuel m parser \<sigma>.
           get_parser_p1 fuel rules n = Some (Inr m) \<and>
           get_parser_part2 fuel rules n init = Some (Inr (parser, \<sigma>)) \<and>
           (\<forall>s. \<exists>k \<sigma>'. run order k parser s \<sigma> = Some (Inr (Matches (m s), \<sigma>'))) \<and>
           (\<forall>input_lines. \<exists>k \<sigma>'. count_p2 (run order k parser) input_lines 0 \<sigma> =
               Some (Inr (count_p1 m input_lines 0, \<sigma>')))"
proof -
  from translations_agree[OF assms(1,2,6), of n] assms(3,4,5)
  obtain fuel m parser \<sigma> where p1: "get_parser_p1 fuel rules n = Some (Inr m)"
    and p2: "get_parser_part2 fuel rules n init = Some (Inr (parser, \<sigma>))"
    and o: "ok (parser_table \<sigma>) parser" and mo: "memo_ok {} \<sigma>" and d: "den parser = m"
    by fastforce
  have "\<exists>k \<sigma>'. run order k parser s \<sigma> = Some (Inr (Matches (m s), \<sigma>'))" for s
    using run_ok[OF assms(6) o mo, of s] d by auto
  moreover have "\<exists>k \<sigma>'. count_p2 (run order k parser) ls 0 \<sigma> =
               Some (Inr (count_p1 m ls 0, \<sigma>'))" for ls
    using count_agree[OF assms(6) o mo, of ls 0] d by simp
  ultimately show ?thesis using p1 p2 by blast
qed

lemma refs_self_matching: "refs self_matching_rules = {(0, 2), (0, 3)}"
  by (auto simp: refs_def self_matching_rules_def split: if_splits)

theorem part2_agrees_with_part1_witness:
  "finite (dom self_matching_rules) \<and> acyclic (refs self_matching_rules) \<and>
   closed_rules self_matching_rules \<and> nonempty_rules self_matching_rules \<and>
   0 \<in> dom self_matching_rules \<and> enumerates lex_order \<and>
   (\<exists>fuel m parser \<sigma>.
      get_parser_p1 fuel self_matching_rules 0 = Some (Inr m) \<and>
      get_parser_part2 fuel self_matching_rules 0 init = Some (Inr (parser, \<sigma>)) \<and>
      (\<forall>s. \<exists>k \<sigma>'. run lex_order k parser s \<sigma> = Some (Inr (Matches (m s), \<sigma>'))) \<and>
      (\<forall>input_lines. \<exists>k \<sigma>'. count_p2 (run lex_order k parser) input_lines 0 \<sigma> =
          Some (Inr (count_p1 m input_lines 0, \<sigma>'))))"
proof -
  have f: "finite (dom self_matching_rules)" by (simp add: self_matching_rules_def)
  have a: "acyclic (refs self_matching_rules)"
    by (simp add: refs_self_matching rtrancl_insert) (simp add: acyclic_def)
  have c: "closed_rules self_matching_rules"
    by (simp add: closed_rules_def refs_self_matching) (simp add: self_matching_rules_def)
  have ne: "nonempty_rules self_matching_rules"
    by (auto simp: nonempty_rules_def self_matching_rules_def split: if_splits)
  have d: "0 \<in> dom self_matching_rules" by (simp add: self_matching_rules_def)
  show ?thesis
    using part2_agrees_with_part1 [OF f a c ne d enumerates_lex_order] f a c ne d
      enumerates_lex_order
    by simp
qed

end
